theory Spec2Isabelle
  imports
    Main
    "HOL-Library.Char_ord"
    "HOL-Library.List_Lexorder"
    "HOL-Library.Product_Lexorder"
begin

section \<open>Text and characters\<close>

text \<open>
  The bill analyser (\<^verbatim>\<open>bill_analyzer.py\<close>) works on Python \<^verbatim>\<open>str\<close> values produced by OCR.
  A text is modelled as a \<^typ>\<open>string\<close> whose characters are the code points 0 to 255
  (ASCII and Latin-1). On that range Python's \<^verbatim>\<open>str.isspace\<close> and the regular-expression
  class \<^verbatim>\<open>\s\<close> hold of the code points 9-13, 28-32, 133 and 160; \<^verbatim>\<open>\d\<close> holds of the ten
  ASCII digits; \<^verbatim>\<open>str.lower\<close> maps A-Z and the Latin-1 capitals 192-222 (without the
  multiplication sign 215) to the code point 32 above and leaves every other character alone.
  The pound sign is code point 163. The euro sign (U+20AC) lies outside the range, so it cannot
  occur in a modelled text, and the classes \<^verbatim>\<open>[$\<pounds>\<euro>]\<close> of the source are the two-element
  class of dollar and pound here.
\<close>

definition is_space :: "char \<Rightarrow> bool" where
  "is_space c = (of_char c \<in> {9, 10, 11, 12, 13, 28, 29, 30, 31, 32, 133, 160 :: nat})"

definition is_digit :: "char \<Rightarrow> bool" where
  "is_digit c = (48 \<le> (of_char c :: nat) \<and> (of_char c :: nat) \<le> 57)"

definition lower_ch :: "char \<Rightarrow> char" where
  "lower_ch c = (let n = (of_char c :: nat) in
     if (65 \<le> n \<and> n \<le> 90) \<or> (192 \<le> n \<and> n \<le> 222 \<and> n \<noteq> 215)
     then char_of (n + 32) else c)"

text \<open>\<^verbatim>\<open>text.lower()\<close>\<close>

definition lower :: "string \<Rightarrow> string" where
  "lower s = map lower_ch s"

text \<open>\<^verbatim>\<open>s.strip()\<close>: leading and trailing whitespace removed.\<close>

definition strip :: "string \<Rightarrow> string" where
  "strip s = rev (dropWhile is_space (rev (dropWhile is_space s)))"

section \<open>Regular expressions as the \<^verbatim>\<open>re\<close> module runs them\<close>

text \<open>
  The patterns of the source use literals, character classes, concatenation, alternation,
  optional parts, greedy and lazy repetition of a single-character class, groups and the
  anchor \<^verbatim>\<open>$\<close>. \<^verbatim>\<open>re\<close> is a backtracking matcher: at a start position it explores the
  alternatives in a fixed priority order (left alternative first, greedy repetition longest first,
  lazy repetition shortest first) and takes the first complete match.

  \<open>rmatch r cs s\<close> lists, in that priority order, every way \<open>r\<close> matches a prefix of \<open>s\<close>:
  each entry holds the captured groups so far (\<open>cs\<close> extended, in the order the groups close)
  and the rest of the input behind the match. The head of the list is the match \<^verbatim>\<open>re\<close> reports.
  All the patterns are compiled with \<^verbatim>\<open>re.IGNORECASE\<close>, so a literal is compared after lowering.
\<close>

datatype regex =
    Atom "char \<Rightarrow> bool"
  | Eps
  | Eos
  | Seq regex regex
  | Alt regex regex
  | Opt regex
  | Star regex
  | LazyStar regex
  | Group regex

type_synonym mres = "string list \<times> string"

function rmatch :: "regex \<Rightarrow> string list \<Rightarrow> string \<Rightarrow> mres list" where
  "rmatch (Atom P) cs s = (case s of [] \<Rightarrow> [] | c # s' \<Rightarrow> if P c then [(cs, s')] else [])"
| "rmatch Eps cs s = [(cs, s)]"
| "rmatch Eos cs s = (if s = [] \<or> s = [CHR 0x0A] then [(cs, s)] else [])"
| "rmatch (Seq a b) cs s = concat (map (\<lambda>(cs', s'). rmatch b cs' s') (rmatch a cs s))"
| "rmatch (Alt a b) cs s = rmatch a cs s @ rmatch b cs s"
| "rmatch (Opt a) cs s = rmatch a cs s @ [(cs, s)]"
| "rmatch (Star a) cs s =
     concat (map (\<lambda>(cs', s'). if length s' < length s then rmatch (Star a) cs' s' else [])
                 (rmatch a cs s)) @ [(cs, s)]"
| "rmatch (LazyStar a) cs s =
     (cs, s) # concat (map (\<lambda>(cs', s'). if length s' < length s then rmatch (LazyStar a) cs' s' else [])
                           (rmatch a cs s))"
| "rmatch (Group a) cs s =
     map (\<lambda>(cs', s'). (cs' @ [take (length s - length s') s], s')) (rmatch a cs s)"
  by pat_completeness auto
termination
  by (relation "measures [\<lambda>(r, cs, s). size r, \<lambda>(r, cs, s). length s]") auto

text \<open>
  \<open>Eos\<close> is \<^verbatim>\<open>$\<close> without \<^verbatim>\<open>re.MULTILINE\<close>: the end of the text, or just before a newline
  that ends the text. A repetition whose body matched the empty string is not iterated; every
  repeated body in the source is a one-character class, so this never arises.
\<close>

text \<open>\<^verbatim>\<open>re.search\<close>: the first match at the leftmost start position that has one.\<close>

fun search :: "regex \<Rightarrow> string \<Rightarrow> mres option" where
  "search r s = (case rmatch r [] s of
       m # _ \<Rightarrow> Some m
     | [] \<Rightarrow> (case s of [] \<Rightarrow> None | _ # s' \<Rightarrow> search r s'))"

text \<open>
  \<^verbatim>\<open>re.findall\<close>: the matches from left to right, none overlapping; for a pattern with one
  group the list holds the text of that group, for a pattern without a group the matched text.
  (No pattern of the source passed to \<^verbatim>\<open>findall\<close> or \<^verbatim>\<open>sub\<close> can match the empty string; after an
  empty match the scan here moves on by one character.)
\<close>

definition match_item :: "string \<Rightarrow> mres \<Rightarrow> string" where
  "match_item s m = (case fst m of g # _ \<Rightarrow> g | [] \<Rightarrow> take (length s - length (snd m)) s)"

function findall :: "regex \<Rightarrow> string \<Rightarrow> string list" where
  "findall r s = (case rmatch r [] s of
       m # _ \<Rightarrow> match_item s m #
                 (if length (snd m) < length s then findall r (snd m)
                  else (case s of [] \<Rightarrow> [] | _ # t \<Rightarrow> findall r t))
     | [] \<Rightarrow> (case s of [] \<Rightarrow> [] | _ # t \<Rightarrow> findall r t))"
  by pat_completeness auto
termination
  by (relation "measure (\<lambda>(r, s). length s)") auto

text \<open>\<^verbatim>\<open>re.sub(pattern, repl, s)\<close> for a replacement without group references.\<close>

function re_sub :: "regex \<Rightarrow> string \<Rightarrow> string \<Rightarrow> string" where
  "re_sub r repl s = (case rmatch r [] s of
       m # _ \<Rightarrow> (if length (snd m) < length s then repl @ re_sub r repl (snd m)
                 else (case s of [] \<Rightarrow> repl | c # t \<Rightarrow> repl @ c # re_sub r repl t))
     | [] \<Rightarrow> (case s of [] \<Rightarrow> [] | c # t \<Rightarrow> c # re_sub r repl t))"
  by pat_completeness auto
termination
  by (relation "measure (\<lambda>(r, repl, s). length s)") auto

subsection \<open>Pattern syntax\<close>

definition re_lit :: "char \<Rightarrow> regex" where
  "re_lit c = Atom (\<lambda>x. lower_ch x = lower_ch c)"

fun re_str :: "string \<Rightarrow> regex" where
  "re_str [] = Eps"
| "re_str [c] = re_lit c"
| "re_str (c # cs) = Seq (re_lit c) (re_str cs)"

fun re_seq :: "regex list \<Rightarrow> regex" where
  "re_seq [] = Eps"
| "re_seq [r] = r"
| "re_seq (r # rs) = Seq r (re_seq rs)"

fun re_alts :: "regex list \<Rightarrow> regex" where
  "re_alts [] = Atom (\<lambda>x. False)"
| "re_alts [r] = r"
| "re_alts (r # rs) = Alt r (re_alts rs)"

definition re_digit :: regex where "re_digit = Atom is_digit"
definition re_space :: regex where "re_space = Atom is_space"

text \<open>\<^verbatim>\<open>.\<close> under \<^verbatim>\<open>re.DOTALL\<close>: any character, the newline too.\<close>
definition re_any :: regex where "re_any = Atom (\<lambda>x. True)"

text \<open>A class of listed characters, such as \<^verbatim>\<open>[/-]\<close>.\<close>
definition re_oneof :: "string \<Rightarrow> regex" where
  "re_oneof cs = Atom (\<lambda>x. x \<in> set cs)"

text \<open>\<^verbatim>\<open>[a-z]\<close> and \<^verbatim>\<open>[A-Z0-9]\<close> under \<^verbatim>\<open>re.IGNORECASE\<close>.\<close>
definition is_ascii_letter :: "char \<Rightarrow> bool" where
  "is_ascii_letter c = (let n = (of_char c :: nat) in (65 \<le> n \<and> n \<le> 90) \<or> (97 \<le> n \<and> n \<le> 122))"
definition re_letter :: regex where "re_letter = Atom is_ascii_letter"

definition re_plus :: "regex \<Rightarrow> regex" where
  "re_plus r = Seq r (Star r)"

text \<open>\<^verbatim>\<open>r{n}\<close> and the greedy \<^verbatim>\<open>r{m,n}\<close>.\<close>
fun re_times :: "nat \<Rightarrow> regex \<Rightarrow> regex" where
  "re_times 0 r = Eps"
| "re_times (Suc 0) r = r"
| "re_times (Suc n) r = Seq r (re_times n r)"

fun re_upto :: "nat \<Rightarrow> regex \<Rightarrow> regex" where
  "re_upto 0 r = Eps"
| "re_upto (Suc 0) r = Opt r"
| "re_upto (Suc n) r = Opt (Seq r (re_upto n r))"

definition re_between :: "nat \<Rightarrow> nat \<Rightarrow> regex \<Rightarrow> regex" where
  "re_between m n r = (if n = m then re_times m r else Seq (re_times m r) (re_upto (n - m) r))"

section \<open>The field extractors\<close>

text \<open>The loop shared by the extractors that use \<^verbatim>\<open>findall\<close>:
  \<^verbatim>\<open>for pattern in patterns: matches = re.findall(pattern, text, re.IGNORECASE);
      if matches: return matches[0]\<close> and \<^verbatim>\<open>return None\<close> behind the loop.\<close>

fun first_findall :: "regex list \<Rightarrow> string \<Rightarrow> string option" where
  "first_findall [] text = None"
| "first_findall (p # ps) text =
     (case findall p text of m # _ \<Rightarrow> Some m | [] \<Rightarrow> first_findall ps text)"

definition month :: regex where
  "month = Seq (re_alts (map re_str [''Jan'', ''Feb'', ''Mar'', ''Apr'', ''May'', ''Jun'',
                                      ''Jul'', ''Aug'', ''Sep'', ''Oct'', ''Nov'', ''Dec'']))
               (Star re_letter)"

definition ordinal :: regex where
  "ordinal = Opt (re_alts (map re_str [''st'', ''nd'', ''rd'', ''th'']))"



text \<open>The captured number \<^verbatim>\<open>(\d+\.\d{2})\<close> and the currency class.\<close>

definition amount_number :: regex where
  "amount_number = Group (re_seq [re_plus re_digit, re_lit CHR ''.'', re_times 2 re_digit])"

definition currency :: regex where
  "currency = re_oneof [CHR ''$'', CHR 0xA3]"

definition amount_patterns :: "regex list" where
  "amount_patterns =
    [ Seq currency amount_number,
      Seq (re_lit (CHR 0xA3)) amount_number,
      Seq amount_number currency,
      re_seq [re_str ''Total'', Opt (re_lit CHR '':''), Star re_space, Opt currency, amount_number],
      re_seq [re_str ''Amount'', Star re_space, re_str ''due'', Opt (re_lit CHR '':''),
              Star re_space, Opt currency, amount_number],
      re_seq [re_str ''Total'', re_plus re_space,
              Opt (Alt (re_str ''Electricity'') (re_str ''Gas'')), re_plus re_space,
              re_str ''Charges'', Star re_space, Opt currency, amount_number],
      re_seq [re_str ''Total'', re_plus re_space, re_str ''charges'', re_plus re_space,
              re_str ''for'', re_plus re_space, re_str ''bill'', Star re_space, Opt currency,
              amount_number] ]"

definition extract_amount :: "string \<Rightarrow> string option" where
  "extract_amount text = first_findall amount_patterns text"

definition extract_bill_type :: "string \<Rightarrow> string" where
  "extract_bill_type text =
     (if search (re_str ''gas'') text \<noteq> None then ''Gas''
      else if search (Alt (re_str ''electric'') (re_str ''electricity'')) text \<noteq> None then ''Electric''
      else ''Unknown'')"






subsection \<open>Tariff and billing period\<close>

definition date_pattern_part :: regex where
  "date_pattern_part = re_seq [re_between 1 2 re_digit, ordinal, re_plus re_space, month,
                               re_plus re_space, re_between 2 4 re_digit]"

definition tariff_names :: "string list" where
  "tariff_names = [''Cosy Octopus'', ''Agile Octopus'', ''Octopus Tracker'']"

text \<open>\<^verbatim>\<open>re.escape\<close> of a tariff name leaves a pattern of literals.\<close>

definition tariff_pattern :: "string \<Rightarrow> regex" where
  "tariff_pattern tariff_name_base =
     re_seq [Group (re_str tariff_name_base), Star re_space, re_lit CHR ''('', Star re_space,
             Group date_pattern_part, Star re_space, re_lit CHR ''-'', Star re_space,
             Group date_pattern_part, Star re_space, re_lit CHR '')'']"

text \<open>The three results are the groups 1 to 3 of the match, each stripped. Every match of a
  tariff pattern closes exactly three groups (lemma \<open>tariff_pattern_groups\<close>), so the last
  case below is never taken.\<close>

fun tariff_loop :: "string list \<Rightarrow> string \<Rightarrow> string option \<times> string option \<times> string option" where
  "tariff_loop [] text = (None, None, None)"
| "tariff_loop (n # ns) text =
     (case search (tariff_pattern n) text of
        Some ([g1, g2, g3], _) \<Rightarrow> (Some (strip g1), Some (strip g2), Some (strip g3))
      | Some _ \<Rightarrow> (None, None, None)
      | None \<Rightarrow> tariff_loop ns text)"

definition extract_tariff_and_billing_period ::
    "string \<Rightarrow> string option \<times> string option \<times> string option" where
  "extract_tariff_and_billing_period text = tariff_loop tariff_names text"

subsection \<open>Address\<close>

text \<open>Both patterns are searched with \<^verbatim>\<open>re.IGNORECASE | re.DOTALL\<close>; the group is
  \<^verbatim>\<open>(.*?)\<close>, a lazy repetition.\<close>

definition address_tail :: regex where
  "address_tail = re_seq [Opt (re_lit CHR '':''), Star re_space, Group (LazyStar re_any),
                          Alt (re_str ''Postcode'') Eos]"

definition address_patterns :: "regex list" where
  "address_patterns =
    [ re_seq [re_str ''Supply'', re_plus re_space, re_str ''Address'', address_tail],
      Seq (re_str ''Address'') address_tail ]"

text \<open>Every match of an address pattern closes exactly one group (lemma
  \<open>address_pattern_groups\<close>), so the case of a match without a group is never taken.\<close>

fun address_loop :: "regex list \<Rightarrow> string \<Rightarrow> string option" where
  "address_loop [] text = None"
| "address_loop (p # ps) text =
     (case search p text of
        Some (g # _, _) \<Rightarrow> Some (re_sub (re_plus re_space) '' '' (strip g))
      | Some ([], _) \<Rightarrow> None
      | None \<Rightarrow> address_loop ps text)"

definition extract_address :: "string \<Rightarrow> string option" where
  "extract_address text = address_loop address_patterns text"

section \<open>Fingerprint\<close>



section \<open>Bill records and the batch of images\<close>

text \<open>One dictionary of \<^verbatim>\<open>bill_data\<close>; a value that may be \<^verbatim>\<open>None\<close> is an option.\<close>

record bill =
  Filename :: string
  Date :: "string option"
  Tariff :: "string option"
  Start_Date :: "string option"
  End_Date :: "string option"
  Amount :: "string option"
  Type :: "string option"
  Account_Number :: "string option"
  Meter_Number :: "string option"
  Address :: "string option"
  Fingerprint :: string









section \<open>Duplicate detection\<close>

text \<open>One dictionary of the list \<^verbatim>\<open>duplicates\<close>, by its \<^verbatim>\<open>'Match Type'\<close>.\<close>

datatype duplicate =
    Exact_content_match "string list" string
  | Same_date_amount_type "string list" "string option" "string option" "string option"

fun Files :: "duplicate \<Rightarrow> string list" where
  "Files (Exact_content_match fs _) = fs"
| "Files (Same_date_amount_type fs _ _ _) = fs"

fun is_same_date_amount_type :: "duplicate \<Rightarrow> bool" where
  "is_same_date_amount_type (Exact_content_match _ _) = False"
| "is_same_date_amount_type (Same_date_amount_type _ _ _ _) = True"

datatype py_error = KeyError string

text \<open>\<^verbatim>\<open>df['Fingerprint'].value_counts()\<close> and the fingerprints counted more than once: the
  distinct values, most frequent first (equal counts in the order of first appearance).\<close>

definition value_counts :: "string list \<Rightarrow> (string \<times> nat) list" where
  "value_counts xs =
     sort_key (\<lambda>(v, n). - int n) (map (\<lambda>v. (v, count_list xs v)) (rev (remdups (rev xs))))"

definition duplicate_fingerprints :: "bill list \<Rightarrow> string list" where
  "duplicate_fingerprints df =
     map fst (filter (\<lambda>(v, n). n > 1) (value_counts (map Fingerprint df)))"

definition exact_matches :: "bill list \<Rightarrow> duplicate list" where
  "exact_matches df =
     map (\<lambda>fingerprint.
            Exact_content_match (map Filename (filter (\<lambda>b. Fingerprint b = fingerprint) df))
                                fingerprint)
         (duplicate_fingerprints df)"

text \<open>
  \<^verbatim>\<open>df.groupby(['Date', 'Amount', 'Type'])\<close>: a row with a missing value (\<^verbatim>\<open>None\<close>) in one of
  the three columns belongs to no group (pandas drops missing keys); the other rows are grouped
  by their three values, the groups come in the sorted order of the keys, and the rows of a
  group keep their order.
\<close>

definition group_key :: "bill \<Rightarrow> (string \<times> string \<times> string) option" where
  "group_key b = (case (Date b, Amount b, Type b) of
       (Some d, Some a, Some t) \<Rightarrow> Some (d, a, t)
     | _ \<Rightarrow> None)"

definition group_rows :: "bill list \<Rightarrow> string \<times> string \<times> string \<Rightarrow> bill list" where
  "group_rows df k = filter (\<lambda>b. group_key b = Some k) df"

definition groupby :: "bill list \<Rightarrow> bill list list" where
  "groupby df = map (group_rows df) (sort (remdups (List.map_filter group_key df)))"

text \<open>\<^verbatim>\<open>.filter(lambda x: len(x) > 1)\<close> on the grouping: the rows of the groups that pass, in
  their order in \<open>df\<close>.\<close>

definition groupby_filter :: "(bill list \<Rightarrow> bool) \<Rightarrow> bill list \<Rightarrow> bill list" where
  "groupby_filter f df =
     filter (\<lambda>b. case group_key b of None \<Rightarrow> False | Some k \<Rightarrow> f (group_rows df k)) df"

definition same_key_matches :: "bill list \<Rightarrow> duplicate list" where
  "same_key_matches df =
     (let potential_dupes = groupby_filter (\<lambda>x. length x > 1) df
      in concat (map (\<lambda>group.
            if length group > 1 \<and> length (remdups (map Fingerprint group)) > 1
            then (case group of
                    b0 # _ \<Rightarrow> [Same_date_amount_type (map Filename group)
                                  (Date b0) (Amount b0) (Type b0)]
                  | [] \<Rightarrow> [])
            else [])
          (groupby potential_dupes)))"

text \<open>For an empty \<^verbatim>\<open>bill_data\<close> the data frame has no columns, and \<^verbatim>\<open>df['Fingerprint']\<close>
  raises \<^verbatim>\<open>KeyError\<close>; otherwise all columns are there and both passes run.\<close>

definition identify_duplicates :: "bill list \<Rightarrow> py_error + duplicate list" where
  "identify_duplicates bill_data =
     (if bill_data = [] then Inl (KeyError ''Fingerprint'')
      else Inr (exact_matches bill_data @ same_key_matches bill_data))"

section \<open>Notions of the specification\<close>







text \<open>The records of a batch that carry the date \<open>d\<close>, the amount \<open>a\<close> and the type \<open>t\<close>.\<close>

definition records_with :: "bill list \<Rightarrow> string \<Rightarrow> string \<Rightarrow> string \<Rightarrow> bill list" where
  "records_with bill_data d a t =
     filter (\<lambda>b. Date b = Some d \<and> Amount b = Some a \<and> Type b = Some t) bill_data"

definition example_bills :: "bill list" where
  "example_bills =
    [\<lparr>Filename = ''a.jpg'', Date = Some ''12 May 2025'', Tariff = None, Start_Date = None,
      End_Date = None, Amount = Some ''50.00'', Type = Some ''Unknown'', Account_Number = None,
      Meter_Number = None, Address = None, Fingerprint = ''f1''\<rparr>,
     \<lparr>Filename = ''b.jpg'', Date = None, Tariff = None, Start_Date = None,
      End_Date = None, Amount = Some ''50.00'', Type = Some ''Unknown'', Account_Number = None,
      Meter_Number = None, Address = None, Fingerprint = ''f2''\<rparr>,
     \<lparr>Filename = ''c.jpg'', Date = Some ''12 May 2025'', Tariff = None, Start_Date = None,
      End_Date = None, Amount = Some ''50.00'', Type = Some ''Unknown'', Account_Number = None,
      Meter_Number = None, Address = None, Fingerprint = ''f3''\<rparr>]"

text \<open>A text contains a word without regard to case when one of its substrings has the same
  lower-case form as the word.\<close>

fun starts_with_ci :: "string \<Rightarrow> string \<Rightarrow> bool" where
  "starts_with_ci [] s = True"
| "starts_with_ci (c # w) [] = False"
| "starts_with_ci (c # w) (x # s) = (lower_ch x = lower_ch c \<and> starts_with_ci w s)"

fun contains_ci :: "string \<Rightarrow> string \<Rightarrow> bool" where
  "contains_ci w [] = starts_with_ci w []"
| "contains_ci w (x # s) = (starts_with_ci w (x # s) \<or> contains_ci w s)"

text \<open>A pattern matches at position \<open>k\<close> of a text when the matcher, started there, finds a
  match; the item reported for that match is the one of the first alternative found.\<close>

definition matches_at :: "regex \<Rightarrow> string \<Rightarrow> nat \<Rightarrow> bool" where
  "matches_at p text k = (k \<le> length text \<and> rmatch p [] (drop k text) \<noteq> [])"

definition matches_anywhere :: "regex \<Rightarrow> string \<Rightarrow> bool" where
  "matches_anywhere p text = list_ex (matches_at p text) [0 ..< Suc (length text)]"

definition item_at :: "regex \<Rightarrow> string \<Rightarrow> nat \<Rightarrow> string" where
  "item_at p text k = (case rmatch p [] (drop k text) of
       m # _ \<Rightarrow> match_item (drop k text) m
     | [] \<Rightarrow> [])"

text \<open>A text in which the first pattern matches late (the pound amount) and lower-priority
  patterns match earlier: \<^verbatim>\<open>Total: 5.00 and 12.34$ then \<pounds>7.25 or $8.00\<close>.\<close>

definition priority_example :: string where
  "priority_example = ''Total: 5.00 and 12.34$ then '' @ [CHR 0xA3] @ ''7.25 or $8.00''"

text \<open>
  The declarative reading of a pattern: \<open>matches r w g\<close> holds when \<open>r\<close> can match the word
  \<open>w\<close> closing the groups \<open>g\<close> (in the order they close). The matcher only reports such matches
  (lemma \<open>rmatch_sound\<close>).
\<close>

inductive matches :: "regex \<Rightarrow> string \<Rightarrow> string list \<Rightarrow> bool" where
  m_Atom: "P c \<Longrightarrow> matches (Atom P) [c] []"
| m_Eps: "matches Eps [] []"
| m_Eos: "matches Eos [] []"
| m_Seq: "matches a u g \<Longrightarrow> matches b v h \<Longrightarrow> matches (Seq a b) (u @ v) (g @ h)"
| m_Alt1: "matches a w g \<Longrightarrow> matches (Alt a b) w g"
| m_Alt2: "matches b w g \<Longrightarrow> matches (Alt a b) w g"
| m_Opt0: "matches (Opt a) [] []"
| m_Opt1: "matches a w g \<Longrightarrow> matches (Opt a) w g"
| m_Star0: "matches (Star a) [] []"
| m_Star1: "matches a u g \<Longrightarrow> matches (Star a) v h \<Longrightarrow> matches (Star a) (u @ v) (g @ h)"
| m_Lazy0: "matches (LazyStar a) [] []"
| m_Lazy1: "matches a u g \<Longrightarrow> matches (LazyStar a) v h \<Longrightarrow> matches (LazyStar a) (u @ v) (g @ h)"
| m_Group: "matches a w g \<Longrightarrow> matches (Group a) w (g @ [w])"

fun group_free :: "regex \<Rightarrow> bool" where
  "group_free (Group a) = False"
| "group_free (Seq a b) = (group_free a \<and> group_free b)"
| "group_free (Alt a b) = (group_free a \<and> group_free b)"
| "group_free (Opt a) = group_free a"
| "group_free (Star a) = group_free a"
| "group_free (LazyStar a) = group_free a"
| "group_free _ = True"

text \<open>A number with exactly two decimal places: one or more digits, a dot, two digits.\<close>

definition two_decimal_number :: "string \<Rightarrow> bool" where
  "two_decimal_number v = (case rev v of
       d2 # d1 # dot # ds \<Rightarrow>
         is_digit d2 \<and> is_digit d1 \<and> dot = CHR ''.'' \<and> ds \<noteq> [] \<and> list_all is_digit ds
     | _ \<Rightarrow> False)"

text \<open>A pattern every match of which closes exactly one group, holding a two-decimal number
  taken from the matched word.\<close>

definition amount_shape :: "regex \<Rightarrow> bool" where
  "amount_shape r = (\<forall>w g. matches r w g \<longrightarrow>
     (\<exists>v pre post. g = [v] \<and> two_decimal_number v \<and> w = pre @ v @ post))"

text \<open>
  The address by the words of the specification. The label is the word "Address" in any letter
  case, for the first pattern behind the word "Supply" and one or more whitespace characters;
  the label that counts is the leftmost "Supply Address" label of the text and, when the text
  has none, the leftmost "Address" label. Behind the label an optional colon and all whitespace
  are skipped; the capture is what follows, up to the token "Postcode" (in any letter case) or
  else up to the end of the text. The capture is trimmed and every run of whitespace in it
  becomes one space. The capture may stop at the first "Postcode" (\<open>lazy_capture\<close>) or run on
  to the last one (\<open>greedy_capture\<close>).
\<close>

fun first_suffix :: "(string \<Rightarrow> 'a option) \<Rightarrow> string \<Rightarrow> 'a option" where
  "first_suffix f [] = f []"
| "first_suffix f (x # s) = (case f (x # s) of Some y \<Rightarrow> Some y | None \<Rightarrow> first_suffix f s)"

definition address_label_rest :: "string \<Rightarrow> string option" where
  "address_label_rest t =
     (if starts_with_ci ''Address'' t then Some (drop (length ''Address'') t) else None)"

definition supply_label_rest :: "string \<Rightarrow> string option" where
  "supply_label_rest t =
     (let r = drop (length ''Supply'') t
      in if starts_with_ci ''Supply'' t \<and> r \<noteq> [] \<and> is_space (hd r)
         then address_label_rest (dropWhile is_space r) else None)"

definition skip_colon :: "string \<Rightarrow> string" where
  "skip_colon r = (case r of c # r' \<Rightarrow> if c = CHR '':'' then r' else r | [] \<Rightarrow> [])"

fun lazy_capture :: "string \<Rightarrow> string" where
  "lazy_capture [] = []"
| "lazy_capture (x # s) =
     (if starts_with_ci ''Postcode'' (x # s) then [] else x # lazy_capture s)"

fun greedy_capture :: "string \<Rightarrow> string" where
  "greedy_capture [] = []"
| "greedy_capture (x # s) =
     (if contains_ci ''Postcode'' s then x # greedy_capture s
      else if starts_with_ci ''Postcode'' (x # s) then []
      else x # s)"

function collapse_whitespace :: "string \<Rightarrow> string" where
  "collapse_whitespace [] = []"
| "collapse_whitespace (x # s) =
     (if is_space x then CHR '' '' # collapse_whitespace (dropWhile is_space s)
      else x # collapse_whitespace s)"
  by pat_completeness auto
termination
  by (relation "measure length") (auto simp: length_dropWhile_le less_Suc_eq_le)

definition address_by :: "(string \<Rightarrow> string) \<Rightarrow> string \<Rightarrow> string option" where
  "address_by capture text =
     (let finish = (\<lambda>r. collapse_whitespace (strip (capture (dropWhile is_space (skip_colon r)))))
      in case first_suffix supply_label_rest text of
           Some r \<Rightarrow> Some (finish r)
         | None \<Rightarrow> map_option finish (first_suffix address_label_rest text))"

text \<open>What the lazy group \<^verbatim>\<open>(.*?)\<close> of the source captures before \<^verbatim>\<open>(?:Postcode|$)\<close>: the
  text up to the first "Postcode", or up to the end, where \<^verbatim>\<open>$\<close> also holds before a newline
  that ends the text.\<close>

fun code_capture :: "string \<Rightarrow> string" where
  "code_capture [] = []"
| "code_capture (x # s) =
     (if starts_with_ci ''Postcode'' (x # s) \<or> x # s = [CHR 0x0A] then []
      else x # code_capture s)"

definition first_caps :: "regex \<Rightarrow> string \<Rightarrow> string list option" where
  "first_caps r t = (case rmatch r [] t of m # _ \<Rightarrow> Some (fst m) | [] \<Rightarrow> None)"

text \<open>A supply address of two lines, with the label and the token in other letter cases.\<close>

definition address_example :: string where
  "address_example = ''Supply  address: 1 High St'' @ [CHR 0x0A] @ ''  Town '' @ [CHR 0x0A] @
     ''POSTCODE AB1''"



section \<open>Characters\<close>

lemma of_char_lower_ch:
  "(of_char (lower_ch c) :: nat) =
     (let n = of_char c in
      if (65 \<le> n \<and> n \<le> 90) \<or> (192 \<le> n \<and> n \<le> 222 \<and> n \<noteq> 215) then n + 32 else n)"
  by (simp add: lower_ch_def Let_def of_char_of)


lemma char_eq_of_char: "(c = d) = ((of_char c :: nat) = of_char d)"
  by (metis char_of_char)




lemma is_space_lower_ch: "is_space (lower_ch c) = is_space c"
  by (simp add: is_space_def of_char_lower_ch Let_def)

section \<open>Repetition of a character class\<close>

lemma rmatch_Star_Atom_Cons:
  "rmatch (Star (Atom P)) cs (c # s) =
     (if P c then rmatch (Star (Atom P)) cs s @ [(cs, c # s)] else [(cs, c # s)])"
  by simp

lemma rmatch_Star_Atom_hd:
  "\<exists>ms. rmatch (Star (Atom P)) cs s = (cs, dropWhile P s) # ms"
proof (induction s)
  case Nil
  show ?case by simp
next
  case (Cons c s)
  then obtain ms where "rmatch (Star (Atom P)) cs s = (cs, dropWhile P s) # ms" by blast
  then show ?case by (simp del: rmatch.simps add: rmatch_Star_Atom_Cons)
qed

lemma rmatch_plus_Atom:
  "rmatch (re_plus (Atom P)) cs s =
     (case s of [] \<Rightarrow> [] | c # t \<Rightarrow> if P c then rmatch (Star (Atom P)) cs t else [])"
  by (cases s) (simp_all add: re_plus_def)

subsection \<open>Substituting the runs of a class\<close>

lemma re_sub_plus_Atom_Nil: "re_sub (re_plus (Atom P)) repl [] = []"
  by (simp add: re_plus_def)

lemma re_sub_plus_Atom_Cons:
  "re_sub (re_plus (Atom P)) repl (c # t) =
     (if P c then repl @ re_sub (re_plus (Atom P)) repl (dropWhile P t)
      else c # re_sub (re_plus (Atom P)) repl t)"
proof (cases "P c")
  case True
  obtain ms where ms: "rmatch (Star (Atom P)) [] t = ([], dropWhile P t) # ms"
    using rmatch_Star_Atom_hd by blast
  have len: "length (dropWhile P t) < length (c # t)"
    using length_dropWhile_le [of P t] by simp
  have "rmatch (re_plus (Atom P)) [] (c # t) = ([], dropWhile P t) # ms"
    using True ms by (simp add: rmatch_plus_Atom del: rmatch.simps)
  then show ?thesis
    using True len by (subst re_sub.simps) (simp del: rmatch.simps re_sub.simps)
next
  case False
  have "rmatch (re_plus (Atom P)) [] (c # t) = []"
    using False by (simp add: rmatch_plus_Atom del: rmatch.simps)
  then show ?thesis
    using False by (subst re_sub.simps) (simp del: rmatch.simps re_sub.simps)
qed


section \<open>The fingerprint\<close>






section \<open>The batch of images\<close>






section \<open>Duplicate detection\<close>

lemma group_key_Some:
  "(group_key b = Some (d, a, t)) = (Date b = Some d \<and> Amount b = Some a \<and> Type b = Some t)"
  by (auto simp: group_key_def split: option.splits)

lemma group_rows_records_with: "group_rows df (d, a, t) = records_with df d a t"
  by (simp add: group_rows_def records_with_def group_key_Some)

lemma group_rows_filtered:
  "group_rows (groupby_filter f df) k = (if f (group_rows df k) then group_rows df k else [])"
proof -
  have "filter (\<lambda>b. group_key b = Some k)
          (filter (\<lambda>b. case group_key b of None \<Rightarrow> False | Some k' \<Rightarrow> f (group_rows df k')) df)
        = filter (\<lambda>b. group_key b = Some k \<and> f (group_rows df k)) df"
    unfolding filter_filter by (rule filter_cong) (auto split: option.splits)
  then show ?thesis
    by (simp add: group_rows_def groupby_filter_def)
qed

lemma set_map_filter: "set (List.map_filter f xs) = {y. \<exists>x \<in> set xs. f x = Some y}"
  by (induction xs) (auto simp: List.map_filter_simps split: option.splits)

lemma group_rows_nonempty: "(group_rows df k \<noteq> []) = (\<exists>b \<in> set df. group_key b = Some k)"
  by (auto simp: group_rows_def filter_empty_conv)

lemma set_groupby: "set (groupby df) = {group_rows df k | k. group_rows df k \<noteq> []}"
  by (auto simp: groupby_def set_map_filter group_rows_nonempty)

lemma set_groupby_filtered:
  "set (groupby (groupby_filter (\<lambda>x. length x > 1) df)) =
     {group_rows df k | k. length (group_rows df k) > 1}"
proof -
  have "\<And>k. ((if 1 < length (group_rows df k) then group_rows df k else []) \<noteq> []) =
          (1 < length (group_rows df k))"
    by auto
  moreover have "\<And>k. 1 < length (group_rows df k) \<Longrightarrow>
      (if 1 < length (group_rows df k) then group_rows df k else []) = group_rows df k"
    by simp
  ultimately show ?thesis
    unfolding set_groupby group_rows_filtered by (metis (no_types, lifting))
qed

lemma same_key_matches_iff:
  "(g \<in> set (same_key_matches df)) =
     (\<exists>d a t. length (records_with df d a t) > 1 \<and>
              card (Fingerprint ` set (records_with df d a t)) > 1 \<and>
              g = Same_date_amount_type (map Filename (records_with df d a t))
                    (Some d) (Some a) (Some t))"
  (is "?L = ?R")
proof
  assume ?L
  then obtain grp where grp: "grp \<in> set (groupby (groupby_filter (\<lambda>x. length x > 1) df))"
    and len: "length grp > 1" and fps: "length (remdups (map Fingerprint grp)) > 1"
    and g: "g \<in> set (case grp of b0 # _ \<Rightarrow> [Same_date_amount_type (map Filename grp)
                                  (Date b0) (Amount b0) (Type b0)] | [] \<Rightarrow> [])"
    by (auto simp: same_key_matches_def Let_def split: if_splits)
  from grp obtain k where k: "grp = group_rows df k"
    unfolding set_groupby_filtered by blast
  obtain d a t where dat: "k = (d, a, t)" by (cases k) auto
  obtain b0 rest where b0: "grp = b0 # rest" using len by (cases grp) auto
  have "b0 \<in> set (group_rows df k)" using k b0 by (metis list.set_intros(1))
  then have "group_key b0 = Some (d, a, t)" by (simp add: group_rows_def dat)
  then have f: "Date b0 = Some d" "Amount b0 = Some a" "Type b0 = Some t"
    by (simp_all add: group_key_Some)
  have r: "grp = records_with df d a t" using k dat by (simp add: group_rows_records_with)
  have c: "card (Fingerprint ` set grp) > 1"
    using fps by (simp add: length_remdups_card_conv)
  show ?R
    using g b0 f r c len by (intro exI [of _ d] exI [of _ a] exI [of _ t]) auto
next
  assume ?R
  then obtain d a t where len: "length (records_with df d a t) > 1"
    and c: "card (Fingerprint ` set (records_with df d a t)) > 1"
    and g: "g = Same_date_amount_type (map Filename (records_with df d a t))
                    (Some d) (Some a) (Some t)" by blast
  let ?grp = "records_with df d a t"
  have in_groups: "?grp \<in> set (groupby (groupby_filter (\<lambda>x. length x > 1) df))"
    unfolding set_groupby_filtered mem_Collect_eq
    using len group_rows_records_with [of df d a t] by (intro exI [of _ "(d, a, t)"]) simp
  obtain b0 rest where b0: "?grp = b0 # rest" using len by (cases ?grp) auto
  have "b0 \<in> set ?grp" using b0 by simp
  then have f: "Date b0 = Some d" "Amount b0 = Some a" "Type b0 = Some t"
    by (simp_all add: records_with_def)
  have fps: "length (remdups (map Fingerprint ?grp)) > 1"
    using c by (simp add: length_remdups_card_conv)
  have "g \<in> set (if length ?grp > 1 \<and> length (remdups (map Fingerprint ?grp)) > 1
            then (case ?grp of b0 # _ \<Rightarrow> [Same_date_amount_type (map Filename ?grp)
                                  (Date b0) (Amount b0) (Type b0)] | [] \<Rightarrow> [])
            else [])"
    using len fps g f by (simp add: b0)
  then show ?L
    unfolding same_key_matches_def Let_def set_concat set_map using in_groups by blast
qed

lemma exact_matches_not_same: "g \<in> set (exact_matches df) \<Longrightarrow> \<not> is_same_date_amount_type g"
  by (auto simp: exact_matches_def)

lemma identify_duplicates_same:
  "identify_duplicates df = Inr ds \<Longrightarrow>
     (g \<in> set ds \<and> is_same_date_amount_type g) = (g \<in> set (same_key_matches df))"
  by (auto simp: identify_duplicates_def same_key_matches_iff split: if_splits
           dest: exact_matches_not_same)

lemma example_duplicates:
  "identify_duplicates example_bills =
     Inr [Same_date_amount_type [''a.jpg'', ''c.jpg''] (Some ''12 May 2025'') (Some ''50.00'')
            (Some ''Unknown'')]"
  by code_simp

text \<open>
  C2. Every group that the pass over the key (date, amount, type) emits lists at least two
  records, which are all the records of the batch with one and the same date, amount and type,
  and these records carry at least two different fingerprints; records that share the three
  values and all have one common fingerprint are not reported by this pass.
\<close>

theorem same_key_group_invariant:
  assumes "identify_duplicates bill_data = Inr duplicates"
    and "g \<in> set duplicates" and "is_same_date_amount_type g"
  shows "\<exists>d a t. g = Same_date_amount_type (map Filename (records_with bill_data d a t))
                       (Some d) (Some a) (Some t) \<and>
           2 \<le> length (records_with bill_data d a t) \<and>
           (\<forall>b \<in> set (records_with bill_data d a t).
              b \<in> set bill_data \<and> Date b = Some d \<and> Amount b = Some a \<and> Type b = Some t) \<and>
           2 \<le> card (Fingerprint ` set (records_with bill_data d a t)) \<and>
           \<not> (\<exists>f. \<forall>b \<in> set bill_data.
                  Date b = Some d \<and> Amount b = Some a \<and> Type b = Some t \<longrightarrow> Fingerprint b = f)"
proof -
  have "g \<in> set (same_key_matches bill_data)"
    using identify_duplicates_same [OF assms(1), of g] assms(2,3) by simp
  then obtain d a t where len: "length (records_with bill_data d a t) > 1"
    and c: "card (Fingerprint ` set (records_with bill_data d a t)) > 1"
    and g: "g = Same_date_amount_type (map Filename (records_with bill_data d a t))
                    (Some d) (Some a) (Some t)"
    unfolding same_key_matches_iff by blast
  have one: "\<not> (\<exists>f. \<forall>b \<in> set bill_data.
                  Date b = Some d \<and> Amount b = Some a \<and> Type b = Some t \<longrightarrow> Fingerprint b = f)"
  proof
    assume "\<exists>f. \<forall>b \<in> set bill_data.
                  Date b = Some d \<and> Amount b = Some a \<and> Type b = Some t \<longrightarrow> Fingerprint b = f"
    then obtain f where "\<forall>b \<in> set bill_data.
          Date b = Some d \<and> Amount b = Some a \<and> Type b = Some t \<longrightarrow> Fingerprint b = f"
      by blast
    then have "\<forall>b \<in> set (records_with bill_data d a t). Fingerprint b = f"
      by (simp add: records_with_def)
    then have "Fingerprint ` set (records_with bill_data d a t) \<subseteq> {f}" by auto
    then have "card (Fingerprint ` set (records_with bill_data d a t)) \<le> card {f}"
      by (intro card_mono) auto
    then show False using c by simp
  qed
  show ?thesis
    using len c g one
    by (intro exI [of _ d] exI [of _ a] exI [of _ t]) (auto simp: records_with_def)
qed

theorem same_key_group_invariant_witness:
  "identify_duplicates example_bills =
     Inr [Same_date_amount_type [''a.jpg'', ''c.jpg''] (Some ''12 May 2025'') (Some ''50.00'')
            (Some ''Unknown'')] \<and>
   (\<exists>d a t. 2 \<le> length (records_with example_bills d a t) \<and>
      2 \<le> card (Fingerprint ` set (records_with example_bills d a t)))"
  using same_key_group_invariant [OF example_duplicates,
      of "Same_date_amount_type [''a.jpg'', ''c.jpg''] (Some ''12 May 2025'') (Some ''50.00'')
            (Some ''Unknown'')"] example_duplicates
  by simp blast

text \<open>
  C7. A record whose date, amount or type is absent is in no group of the pass over the key:
  the members of every such group carry three present values, and when the file names of the
  batch are distinct the file name of the record is not listed by the group.
\<close>

theorem absent_field_never_grouped:
  assumes "identify_duplicates bill_data = Inr duplicates"
    and "g \<in> set duplicates" and "is_same_date_amount_type g"
    and "b \<in> set bill_data"
    and "Date b = None \<or> Amount b = None \<or> Type b = None"
  shows "(\<exists>d a t. g = Same_date_amount_type (map Filename (records_with bill_data d a t))
                       (Some d) (Some a) (Some t) \<and>
                  b \<notin> set (records_with bill_data d a t)) \<and>
         (distinct (map Filename bill_data) \<longrightarrow> Filename b \<notin> set (Files g))"
proof -
  have "g \<in> set (same_key_matches bill_data)"
    using identify_duplicates_same [OF assms(1), of g] assms(2,3) by simp
  then obtain d a t where
    g: "g = Same_date_amount_type (map Filename (records_with bill_data d a t))
                    (Some d) (Some a) (Some t)"
    unfolding same_key_matches_iff by blast
  have nb: "b \<notin> set (records_with bill_data d a t)"
    using assms(5) by (auto simp: records_with_def)
  have "Filename b \<notin> set (Files g)" if dist: "distinct (map Filename bill_data)"
  proof
    assume "Filename b \<in> set (Files g)"
    then obtain b' where b': "b' \<in> set (records_with bill_data d a t)"
      and eq: "Filename b' = Filename b"
      using g by auto
    have "b' \<in> set bill_data" using b' by (simp add: records_with_def)
    moreover have "inj_on Filename (set bill_data)" using dist by (simp add: distinct_map)
    ultimately have "b' = b" using eq assms(4) by (auto dest: inj_onD)
    then show False using b' nb by simp
  qed
  then show ?thesis using g nb by blast
qed

theorem absent_field_never_grouped_witness:
  "Date (example_bills ! 1) = None \<and> distinct (map Filename example_bills) \<and>
   Filename (example_bills ! 1) \<notin>
     set (Files (Same_date_amount_type [''a.jpg'', ''c.jpg''] (Some ''12 May 2025'')
                   (Some ''50.00'') (Some ''Unknown'')))"
proof -
  let ?g = "Same_date_amount_type [''a.jpg'', ''c.jpg''] (Some ''12 May 2025'')
              (Some ''50.00'') (Some ''Unknown'')"
  have b: "example_bills ! 1 \<in> set example_bills" by (simp add: example_bills_def)
  have n: "Date (example_bills ! 1) = None" by (simp add: example_bills_def)
  then have d: "Date (example_bills ! 1) = None \<or> Amount (example_bills ! 1) = None \<or>
           Type (example_bills ! 1) = None" by simp
  have dist: "distinct (map Filename example_bills)" by (simp add: example_bills_def)
  have g: "?g \<in> set [?g]" "is_same_date_amount_type ?g" by simp_all
  from absent_field_never_grouped [OF example_duplicates g b d] dist n
  show ?thesis by blast
qed

lemma two_members:
  assumes "x \<in> set xs" "y \<in> set xs" "f x \<noteq> f y"
  shows "1 < length xs \<and> 1 < card (f ` set xs)"
proof -
  have "{f x, f y} \<subseteq> f ` set xs" using assms by auto
  then have "card {f x, f y} \<le> card (f ` set xs)" by (intro card_mono) auto
  then have c: "2 \<le> card (f ` set xs)" using assms(3) by simp
  have "card (f ` set xs) \<le> card (set xs)" by (rule card_image_le) simp
  also have "\<dots> \<le> length xs" by (rule card_length)
  finally show ?thesis using c by simp
qed

text \<open>
  C9. The type \<^verbatim>\<open>Unknown\<close> is a key value like any other: two records with the same
  present date and amount, both of type \<^verbatim>\<open>Unknown\<close>, and with different fingerprints are
  reported together in a group of the pass over the key.
\<close>

theorem unknown_type_is_matched:
  assumes "b1 \<in> set bill_data" and "b2 \<in> set bill_data"
    and "Date b1 = Some d" and "Date b2 = Some d"
    and "Amount b1 = Some a" and "Amount b2 = Some a"
    and "Type b1 = Some ''Unknown''" and "Type b2 = Some ''Unknown''"
    and "Fingerprint b1 \<noteq> Fingerprint b2"
  shows "\<exists>duplicates fs. identify_duplicates bill_data = Inr duplicates \<and>
           Same_date_amount_type fs (Some d) (Some a) (Some ''Unknown'') \<in> set duplicates \<and>
           Filename b1 \<in> set fs \<and> Filename b2 \<in> set fs"
proof -
  let ?ms = "records_with bill_data d a ''Unknown''"
  have m: "b1 \<in> set ?ms" "b2 \<in> set ?ms" using assms by (simp_all add: records_with_def)
  have "1 < length ?ms \<and> 1 < card (Fingerprint ` set ?ms)"
    using m assms(9) by (rule two_members)
  then have "Same_date_amount_type (map Filename ?ms) (Some d) (Some a) (Some ''Unknown'')
      \<in> set (same_key_matches bill_data)"
    unfolding same_key_matches_iff by blast
  moreover have "bill_data \<noteq> []" using assms(1) by auto
  ultimately show ?thesis
    using m by (intro exI [of _ "exact_matches bill_data @ same_key_matches bill_data"]
                      exI [of _ "map Filename ?ms"]) (simp add: identify_duplicates_def)
qed

theorem unknown_type_is_matched_witness:
  "\<exists>fs. Same_date_amount_type fs (Some ''12 May 2025'') (Some ''50.00'') (Some ''Unknown'')
         \<in> set [Same_date_amount_type [''a.jpg'', ''c.jpg''] (Some ''12 May 2025'')
                  (Some ''50.00'') (Some ''Unknown'')] \<and>
        Filename (example_bills ! 0) \<in> set fs \<and> Filename (example_bills ! 2) \<in> set fs"
proof -
  have m: "example_bills ! 0 \<in> set example_bills" "example_bills ! 2 \<in> set example_bills"
    by (simp_all add: example_bills_def)
  have f: "Date (example_bills ! 0) = Some ''12 May 2025''"
    "Date (example_bills ! 2) = Some ''12 May 2025''"
    "Amount (example_bills ! 0) = Some ''50.00''" "Amount (example_bills ! 2) = Some ''50.00''"
    "Type (example_bills ! 0) = Some ''Unknown''" "Type (example_bills ! 2) = Some ''Unknown''"
    "Fingerprint (example_bills ! 0) \<noteq> Fingerprint (example_bills ! 2)"
    by (simp_all add: example_bills_def)
  show ?thesis
    using unknown_type_is_matched [OF m f] by (simp add: example_duplicates)
qed

section \<open>Literal patterns and the bill type\<close>

lemma starts_with_ci_iff:
  "starts_with_ci w s = (\<exists>mid post. s = mid @ post \<and> lower mid = lower w)"
proof (induction w s rule: starts_with_ci.induct)
  case (1 s)
  show ?case by (simp add: lower_def)
next
  case (2 c w)
  show ?case by (simp add: lower_def)
next
  case (3 c w x s)
  show ?case
  proof
    assume "starts_with_ci (c # w) (x # s)"
    then obtain mid post where "lower_ch x = lower_ch c" "s = mid @ post" "lower mid = lower w"
      using 3 by auto
    then have "x # s = (x # mid) @ post \<and> lower (x # mid) = lower (c # w)"
      by (simp add: lower_def)
    then show "\<exists>mid post. x # s = mid @ post \<and> lower mid = lower (c # w)" by blast
  next
    assume "\<exists>mid post. x # s = mid @ post \<and> lower mid = lower (c # w)"
    then obtain mid post where m: "x # s = mid @ post" "lower mid = lower (c # w)" by blast
    then obtain mid' where "mid = x # mid'" by (cases mid) (auto simp: lower_def)
    then show "starts_with_ci (c # w) (x # s)"
      using m 3 by (auto simp: lower_def)
  qed
qed

lemma contains_ci_iff:
  "contains_ci w s = (\<exists>pre mid post. s = pre @ mid @ post \<and> lower mid = lower w)"
proof (induction s)
  case Nil
  show ?case by (auto simp: starts_with_ci_iff)
next
  case (Cons x s)
  show ?case
  proof
    assume "contains_ci w (x # s)"
    then consider "starts_with_ci w (x # s)" | "contains_ci w s" by auto
    then show "\<exists>pre mid post. x # s = pre @ mid @ post \<and> lower mid = lower w"
    proof cases
      case 1
      then obtain mid post where "x # s = [] @ mid @ post \<and> lower mid = lower w"
        by (auto simp: starts_with_ci_iff)
      then show ?thesis by blast
    next
      case 2
      then obtain pre mid post where "s = pre @ mid @ post" "lower mid = lower w"
        using Cons by blast
      then have "x # s = (x # pre) @ mid @ post \<and> lower mid = lower w" by simp
      then show ?thesis by blast
    qed
  next
    assume "\<exists>pre mid post. x # s = pre @ mid @ post \<and> lower mid = lower w"
    then obtain pre mid post where m: "x # s = pre @ mid @ post" "lower mid = lower w" by blast
    show "contains_ci w (x # s)"
    proof (cases pre)
      case Nil
      then have "starts_with_ci w (x # s)" using m by (auto simp: starts_with_ci_iff)
      then show ?thesis by simp
    next
      case (Cons y pre')
      then have "s = pre' @ mid @ post" using m by simp
      then have "contains_ci w s" using m(2) Cons.IH by blast
      then show ?thesis by simp
    qed
  qed
qed

lemma rmatch_re_lit:
  "rmatch (re_lit c) cs s =
     (case s of [] \<Rightarrow> [] | x # s' \<Rightarrow> if lower_ch x = lower_ch c then [(cs, s')] else [])"
  by (simp add: re_lit_def)

lemma rmatch_re_str:
  "rmatch (re_str w) cs s = (if starts_with_ci w s then [(cs, drop (length w) s)] else [])"
proof (induction w arbitrary: s rule: re_str.induct)
  case 1
  show ?case by simp
next
  case (2 c)
  show ?case by (cases s) (simp_all add: rmatch_re_lit del: rmatch.simps)
next
  case (3 c v va)
  show ?case
    by (cases s) (simp_all add: rmatch_re_lit 3)
qed

lemma search_None_iff: "(search r s = None) = (\<forall>k \<le> length s. rmatch r [] (drop k s) = [])"
proof (induction s)
  case Nil
  show ?case by (simp split: list.splits)
next
  case (Cons x s)
  have "(\<forall>k \<le> length (x # s). rmatch r [] (drop k (x # s)) = []) =
        (rmatch r [] (x # s) = [] \<and> (\<forall>k \<le> length s. rmatch r [] (drop k s) = []))"
    (is "?A = ?B")
  proof
    assume a: ?A
    have "rmatch r [] (drop 0 (x # s)) = []" using a by blast
    moreover have "\<forall>k \<le> length s. rmatch r [] (drop k s) = []"
    proof (intro allI impI)
      fix k assume "k \<le> length s"
      then have "rmatch r [] (drop (Suc k) (x # s)) = []" using a by (metis Suc_le_mono length_Cons)
      then show "rmatch r [] (drop k s) = []" by simp
    qed
    ultimately show ?B by simp
  next
    assume b: ?B
    show ?A
    proof (intro allI impI)
      fix k assume "k \<le> length (x # s)"
      then show "rmatch r [] (drop k (x # s)) = []" using b by (cases k) auto
    qed
  qed
  then show ?case using Cons by (simp split: list.splits del: rmatch.simps)
qed

lemma contains_ci_drop: "contains_ci w s = (\<exists>k \<le> length s. starts_with_ci w (drop k s))"
proof (induction s)
  case Nil
  show ?case by simp
next
  case (Cons x s)
  show ?case
  proof
    assume "contains_ci w (x # s)"
    then consider "starts_with_ci w (drop 0 (x # s))" | k where "k \<le> length s" "starts_with_ci w (drop (Suc k) (x # s))"
      using Cons by auto
    then show "\<exists>k \<le> length (x # s). starts_with_ci w (drop k (x # s))"
      by cases (blast, metis Suc_le_mono length_Cons)
  next
    assume "\<exists>k \<le> length (x # s). starts_with_ci w (drop k (x # s))"
    then obtain k where k: "k \<le> length (x # s)" "starts_with_ci w (drop k (x # s))" by blast
    show "contains_ci w (x # s)"
    proof (cases k)
      case 0
      then show ?thesis using k by simp
    next
      case (Suc j)
      then have "j \<le> length s \<and> starts_with_ci w (drop j s)" using k by simp
      then show ?thesis using Cons by auto
    qed
  qed
qed

lemma search_re_str: "(search (re_str w) s \<noteq> None) = contains_ci w s"
  unfolding search_None_iff contains_ci_drop by (auto simp: rmatch_re_str)

lemma search_Alt: "(search (Alt a b) s \<noteq> None) = (search a s \<noteq> None \<or> search b s \<noteq> None)"
  unfolding search_None_iff by auto

text \<open>
  C5. The bill type is \<^verbatim>\<open>Gas\<close> whenever the text contains "gas" in any letter case, also when it
  contains "electric" or "electricity" as well; it is \<^verbatim>\<open>Electric\<close> when it contains "electric"
  or "electricity" but not "gas"; and it is \<^verbatim>\<open>Unknown\<close> in every other case.
\<close>

theorem bill_type_classification:
  "extract_bill_type text =
     (if contains_ci ''gas'' text then ''Gas''
      else if contains_ci ''electric'' text \<or> contains_ci ''electricity'' text then ''Electric''
      else ''Unknown'')"
  unfolding extract_bill_type_def search_Alt search_re_str by simp

theorem bill_type_classification_witness:
  "contains_ci ''gas'' ''Electricity and GAS'' \<and> contains_ci ''electricity'' ''Electricity and GAS'' \<and>
   extract_bill_type ''Electricity and GAS'' = ''Gas'' \<and>
   extract_bill_type ''ELECTRIC'' = ''Electric'' \<and>
   extract_bill_type ''Water'' = ''Unknown''"
proof -
  have c: "contains_ci ''gas'' ''Electricity and GAS''" "contains_ci ''electricity'' ''Electricity and GAS''"
    "\<not> contains_ci ''gas'' ''ELECTRIC''" "contains_ci ''electric'' ''ELECTRIC''"
    "\<not> contains_ci ''gas'' ''Water''" "\<not> contains_ci ''electric'' ''Water''"
    "\<not> contains_ci ''electricity'' ''Water''"
    by code_simp+
  show ?thesis
    using c bill_type_classification [of "''Electricity and GAS''"]
      bill_type_classification [of "''ELECTRIC''"] bill_type_classification [of "''Water''"]
    by simp
qed

section \<open>Priority of the patterns\<close>

declare findall.simps [simp del] re_sub.simps [simp del] search.simps [simp del]

lemma list_ex_upto: "list_ex P [0 ..< Suc n] = (\<exists>k \<le> n. P k)"
  by (auto simp: list_ex_iff less_Suc_eq_le simp del: upt_Suc)

lemma matches_anywhere_iff: "matches_anywhere p text = (\<exists>k. matches_at p text k)"
  unfolding matches_anywhere_def list_ex_upto by (auto simp: matches_at_def)

lemma matches_at_Cons:
  "matches_at p (x # s) k = (if k = 0 then rmatch p [] (x # s) \<noteq> [] else matches_at p s (k - 1))"
  by (cases k) (simp_all add: matches_at_def)

lemma item_at_Suc: "item_at p (x # s) (Suc k) = item_at p s k"
  by (simp add: item_at_def split: list.splits)

lemma findall_Nil_iff: "(findall p s = []) = (\<not> matches_anywhere p s)"
proof (induction s)
  case Nil
  show ?case
    by (subst findall.simps)
       (simp add: matches_anywhere_iff matches_at_def split: list.splits del: findall.simps)
next
  case (Cons x s)
  have "(\<exists>k. matches_at p (x # s) k) = (rmatch p [] (x # s) \<noteq> [] \<or> (\<exists>k. matches_at p s k))"
  proof
    assume "\<exists>k. matches_at p (x # s) k"
    then obtain k where "matches_at p (x # s) k" by blast
    then show "rmatch p [] (x # s) \<noteq> [] \<or> (\<exists>k. matches_at p s k)"
      by (auto simp: matches_at_Cons split: if_splits)
  next
    assume "rmatch p [] (x # s) \<noteq> [] \<or> (\<exists>k. matches_at p s k)"
    then consider "matches_at p (x # s) 0" | k where "matches_at p (x # s) (Suc k)"
      by (auto simp: matches_at_Cons)
    then show "\<exists>k. matches_at p (x # s) k" by cases blast+
  qed
  then show ?case
    using Cons
    by (subst findall.simps)
       (simp add: matches_anywhere_iff split: list.splits del: findall.simps rmatch.simps)
qed

lemma findall_first:
  "matches_anywhere p s \<Longrightarrow>
     \<exists>k ms. matches_at p s k \<and> (\<forall>k' < k. \<not> matches_at p s k') \<and> findall p s = item_at p s k # ms"
proof (induction s)
  case Nil
  then have "rmatch p [] [] \<noteq> []"
    by (auto simp: matches_anywhere_iff matches_at_def)
  then obtain m ms where m: "rmatch p [] [] = m # ms" by (cases "rmatch p [] []") auto
  have "matches_at p [] 0" using m by (simp add: matches_at_def)
  moreover have "findall p [] = item_at p [] 0 # []"
    using m by (subst findall.simps) (simp add: item_at_def del: findall.simps rmatch.simps)
  ultimately show ?case by blast
next
  case (Cons x s)
  show ?case
  proof (cases "rmatch p [] (x # s)")
    case Nil
    then have "matches_anywhere p s"
      using Cons.prems by (auto simp: matches_anywhere_iff matches_at_Cons split: if_splits)
    then obtain k ms where k: "matches_at p s k" "\<forall>k' < k. \<not> matches_at p s k'"
      "findall p s = item_at p s k # ms" using Cons.IH by blast
    have "matches_at p (x # s) (Suc k)" using k(1) by (simp add: matches_at_Cons)
    moreover have "\<forall>k' < Suc k. \<not> matches_at p (x # s) k'"
    proof (intro allI impI)
      fix k' assume "k' < Suc k"
      then show "\<not> matches_at p (x # s) k'"
        using k(2) Nil by (cases k') (simp_all add: matches_at_Cons)
    qed
    moreover have "findall p (x # s) = item_at p (x # s) (Suc k) # ms"
      using Nil k(3) by (subst findall.simps) (simp add: item_at_Suc del: findall.simps rmatch.simps)
    ultimately show ?thesis by blast
  next
    case (Cons m ms)
    have "matches_at p (x # s) 0" using Cons by (simp add: matches_at_def)
    moreover have "\<exists>rest. findall p (x # s) = item_at p (x # s) 0 # rest"
      using Cons by (subst findall.simps) (simp add: item_at_def del: findall.simps rmatch.simps)
    ultimately show ?thesis by auto
  qed
qed

lemma first_findall_priority:
  "\<exists>p \<in> set ps. matches_anywhere p text \<Longrightarrow>
     \<exists>i k. i < length ps \<and> matches_at (ps ! i) text k \<and>
           (\<forall>j < i. \<not> matches_anywhere (ps ! j) text) \<and>
           (\<forall>k' < k. \<not> matches_at (ps ! i) text k') \<and>
           first_findall ps text = Some (item_at (ps ! i) text k)"
proof (induction ps)
  case Nil
  then show ?case by simp
next
  case (Cons p ps)
  show ?case
  proof (cases "matches_anywhere p text")
    case True
    then obtain k ms where k: "matches_at p text k" "\<forall>k' < k. \<not> matches_at p text k'"
      "findall p text = item_at p text k # ms" using findall_first by blast
    then have "first_findall (p # ps) text = Some (item_at p text k)" by simp
    then show ?thesis using k(1,2) by (intro exI [of _ 0] exI [of _ k]) simp
  next
    case False
    then have "\<exists>p \<in> set ps. matches_anywhere p text" using Cons.prems by auto
    then obtain i k where ik: "i < length ps" "matches_at (ps ! i) text k"
      "\<forall>j < i. \<not> matches_anywhere (ps ! j) text" "\<forall>k' < k. \<not> matches_at (ps ! i) text k'"
      "first_findall ps text = Some (item_at (ps ! i) text k)" using Cons.IH by blast
    have e: "findall p text = []" using False by (simp add: findall_Nil_iff)
    have "\<forall>j < Suc i. \<not> matches_anywhere ((p # ps) ! j) text"
    proof (intro allI impI)
      fix j assume "j < Suc i"
      then show "\<not> matches_anywhere ((p # ps) ! j) text"
        using False ik(3) by (cases j) simp_all
    qed
    then show ?thesis
      using ik e by (intro exI [of _ "Suc i"] exI [of _ k]) simp
  qed
qed

text \<open>
  C4. When some amount pattern matches somewhere in the text, the amount returned is the item
  of the leftmost match of the earliest-listed pattern that matches anywhere: no pattern listed
  before it matches at any position, and it matches at no earlier position.
\<close>

theorem amount_priority:
  assumes "\<exists>p \<in> set amount_patterns. matches_anywhere p text"
  shows "\<exists>i k. i < length amount_patterns \<and> matches_at (amount_patterns ! i) text k \<and>
           (\<forall>j < i. \<not> matches_anywhere (amount_patterns ! j) text) \<and>
           (\<forall>k' < k. \<not> matches_at (amount_patterns ! i) text k') \<and>
           extract_amount text = Some (item_at (amount_patterns ! i) text k)"
  unfolding extract_amount_def using assms by (rule first_findall_priority)

theorem amount_priority_witness:
  "(\<exists>p \<in> set amount_patterns. matches_anywhere p priority_example) \<and>
   extract_amount priority_example = Some ''7.25''"
proof -
  have "matches_anywhere (amount_patterns ! 0) priority_example" by code_simp
  moreover have "amount_patterns ! 0 \<in> set amount_patterns" by (simp add: amount_patterns_def)
  ultimately have h: "\<exists>p \<in> set amount_patterns. matches_anywhere p priority_example" by blast
  have e: "extract_amount priority_example = Some ''7.25''" by code_simp
  from amount_priority [OF h] h e show ?thesis by blast
qed

section \<open>What a match can be\<close>

inductive_cases matches_AtomE: "matches (Atom P) w g"
inductive_cases matches_EpsE: "matches Eps w g"
inductive_cases matches_EosE: "matches Eos w g"
inductive_cases matches_SeqE: "matches (Seq a b) w g"
inductive_cases matches_AltE: "matches (Alt a b) w g"
inductive_cases matches_OptE: "matches (Opt a) w g"
inductive_cases matches_GroupE: "matches (Group a) w g"

lemma rmatch_sound:
  "(cs', s') \<in> set (rmatch r cs s) \<Longrightarrow> \<exists>w g. matches r w g \<and> s = w @ s' \<and> cs' = cs @ g"
proof (induction r cs s arbitrary: cs' s' rule: rmatch.induct)
  case (1 P cs s)
  then show ?case by (auto split: list.splits if_splits intro: m_Atom)
next
  case (2 cs s)
  then show ?case by (auto intro: m_Eps)
next
  case (3 cs s)
  then show ?case by (auto split: if_splits intro: m_Eos)
next
  case (4 a b cs s)
  from 4(3) obtain cs1 s1 where a: "(cs1, s1) \<in> set (rmatch a cs s)"
    and b: "(cs', s') \<in> set (rmatch b cs1 s1)" by auto
  from 4(1) [OF a] obtain u g where u: "matches a u g" "s = u @ s1" "cs1 = cs @ g" by blast
  from 4(2) [OF a refl b] obtain v h where v: "matches b v h" "s1 = v @ s'" "cs' = cs1 @ h"
    by blast
  have "matches (Seq a b) (u @ v) (g @ h)" using u(1) v(1) by (rule m_Seq)
  then show ?case using u v by auto
next
  case (5 a b cs s)
  from 5(3) consider "(cs', s') \<in> set (rmatch a cs s)" | "(cs', s') \<in> set (rmatch b cs s)"
    by auto
  then show ?case
  proof cases
    case 1
    from 5(1) [OF 1] show ?thesis by (blast intro: m_Alt1)
  next
    case 2
    from 5(2) [OF 2] show ?thesis by (blast intro: m_Alt2)
  qed
next
  case (6 a cs s)
  from 6(2) consider "(cs', s') \<in> set (rmatch a cs s)" | "cs' = cs \<and> s' = s"
    by auto
  then show ?case
  proof cases
    case 1
    from 6(1) [OF 1] show ?thesis by (blast intro: m_Opt1)
  next
    case 2
    then show ?thesis using m_Opt0 [of a] by auto
  qed
next
  case (7 a cs s)
  have eq: "rmatch (Star a) cs s = concat (map (\<lambda>(cs1, s1). if length s1 < length s
                                       then rmatch (Star a) cs1 s1 else []) (rmatch a cs s)) @ [(cs, s)]"
    by (rule rmatch.simps)
  have "(cs', s') = (cs, s) \<or>
      (cs', s') \<in> set (concat (map (\<lambda>(cs1, s1). if length s1 < length s
                                       then rmatch (Star a) cs1 s1 else []) (rmatch a cs s)))"
    using 7(3) unfolding eq by (auto simp del: rmatch.simps)
  then consider "cs' = cs \<and> s' = s"
    | cs1 s1 where "(cs1, s1) \<in> set (rmatch a cs s)" "length s1 < length s"
        "(cs', s') \<in> set (rmatch (Star a) cs1 s1)"
    by (auto simp del: rmatch.simps split: if_splits)
  then show ?case
  proof cases
    case 1
    then show ?thesis using m_Star0 [of a] by auto
  next
    case 2
    from 7(1) [OF 2(1)] obtain u g where u: "matches a u g" "s = u @ s1" "cs1 = cs @ g" by blast
    from 7(2) [OF 2(1) refl 2(2) 2(3)] obtain v h where
      v: "matches (Star a) v h" "s1 = v @ s'" "cs' = cs1 @ h" by blast
    have "matches (Star a) (u @ v) (g @ h)" using u(1) v(1) by (rule m_Star1)
    then show ?thesis using u v by auto
  qed
next
  case (8 a cs s)
  have eq: "rmatch (LazyStar a) cs s = (cs, s) # concat (map (\<lambda>(cs1, s1). if length s1 < length s
                                       then rmatch (LazyStar a) cs1 s1 else []) (rmatch a cs s))"
    by (rule rmatch.simps)
  have "(cs', s') = (cs, s) \<or>
      (cs', s') \<in> set (concat (map (\<lambda>(cs1, s1). if length s1 < length s
                                       then rmatch (LazyStar a) cs1 s1 else []) (rmatch a cs s)))"
    using 8(3) unfolding eq by (auto simp del: rmatch.simps)
  then consider "cs' = cs \<and> s' = s"
    | cs1 s1 where "(cs1, s1) \<in> set (rmatch a cs s)" "length s1 < length s"
        "(cs', s') \<in> set (rmatch (LazyStar a) cs1 s1)"
    by (auto simp del: rmatch.simps split: if_splits)
  then show ?case
  proof cases
    case 1
    then show ?thesis using m_Lazy0 [of a] by auto
  next
    case 2
    from 8(1) [OF 2(1)] obtain u g where u: "matches a u g" "s = u @ s1" "cs1 = cs @ g" by blast
    from 8(2) [OF 2(1) refl 2(2) 2(3)] obtain v h where
      v: "matches (LazyStar a) v h" "s1 = v @ s'" "cs' = cs1 @ h" by blast
    have "matches (LazyStar a) (u @ v) (g @ h)" using u(1) v(1) by (rule m_Lazy1)
    then show ?thesis using u v by auto
  qed
next
  case (9 a cs s)
  from 9(2) obtain cs1 where a: "(cs1, s') \<in> set (rmatch a cs s)"
    and c: "cs' = cs1 @ [take (length s - length s') s]" by auto
  from 9(1) [OF a] obtain w g where w: "matches a w g" "s = w @ s'" "cs1 = cs @ g" by blast
  have "take (length s - length s') s = w" using w(2) by simp
  then have "matches (Group a) w (g @ [w]) \<and> s = w @ s' \<and> cs' = cs @ (g @ [w])"
    using w c by (auto intro: m_Group)
  then show ?case by blast
qed

lemma matches_group_free: "matches r w g \<Longrightarrow> group_free r \<Longrightarrow> g = []"
  by (induction rule: matches.induct) auto

lemma matches_Star_Atom: "matches r w g \<Longrightarrow> r = Star (Atom P) \<Longrightarrow> list_all P w"
proof (induction rule: matches.induct)
  case (m_Star1 a u g v h)
  then show ?case by (auto elim: matches_AtomE)
qed auto

section \<open>The amount returned\<close>

lemma lower_ch_dot: "lower_ch x = lower_ch CHR ''.'' \<Longrightarrow> x = CHR ''.''"
proof -
  assume a: "lower_ch x = lower_ch CHR ''.''"
  have "lower_ch CHR ''.'' = CHR ''.''" by code_simp
  then have "(of_char (lower_ch x) :: nat) = 46" using a by simp
  then have "(of_char x :: nat) = 46"
    by (simp add: of_char_lower_ch Let_def split: if_splits)
  then show ?thesis by (simp add: char_eq_of_char)
qed

lemma matches_amount_number:
  assumes "matches amount_number w g"
  shows "g = [w] \<and> two_decimal_number w"
proof -
  have r: "amount_number =
      Group (Seq (Seq (Atom is_digit) (Star (Atom is_digit)))
                 (Seq (re_lit CHR ''.'') (Seq (Atom is_digit) (Atom is_digit))))"
    by (simp add: amount_number_def re_plus_def re_digit_def numeral_2_eq_2)
  from assms obtain g0 where g: "g = g0 @ [w]"
    and m: "matches (Seq (Seq (Atom is_digit) (Star (Atom is_digit)))
                 (Seq (re_lit CHR ''.'') (Seq (Atom is_digit) (Atom is_digit)))) w g0"
    unfolding r by (auto elim: matches_GroupE)
  have "group_free (Seq (Seq (Atom is_digit) (Star (Atom is_digit)))
                 (Seq (re_lit CHR ''.'') (Seq (Atom is_digit) (Atom is_digit))))"
    by (simp add: re_lit_def)
  then have g0: "g0 = []" using m by (rule matches_group_free [rotated])
  from m obtain u v h1 h2 where w: "w = u @ v"
    and u: "matches (Seq (Atom is_digit) (Star (Atom is_digit))) u h1"
    and v: "matches (Seq (re_lit CHR ''.'') (Seq (Atom is_digit) (Atom is_digit))) v h2"
    by (auto elim: matches_SeqE)
  from u obtain c ds h3 where u': "u = c # ds" "is_digit c"
    and ds: "matches (Star (Atom is_digit)) ds h3"
    by (auto elim!: matches_SeqE matches_AtomE)
  have dsd: "list_all is_digit ds" using ds by (rule matches_Star_Atom) simp
  from v obtain x d1 d2 where v': "v = [x, d1, d2]" "lower_ch x = lower_ch CHR ''.''"
    "is_digit d1" "is_digit d2"
    by (auto simp: re_lit_def elim!: matches_SeqE matches_AtomE)
  have x: "x = CHR ''.''" using v'(2) by (rule lower_ch_dot)
  have "two_decimal_number w"
    using w u' dsd v' x by (simp add: two_decimal_number_def)
  then show ?thesis using g g0 by simp
qed

lemma amount_shape_amount_number: "amount_shape amount_number"
  unfolding amount_shape_def
proof (intro allI impI)
  fix w g assume "matches amount_number w g"
  then have "g = [w] \<and> two_decimal_number w \<and> w = [] @ w @ []"
    using matches_amount_number by simp
  then show "\<exists>v pre post. g = [v] \<and> two_decimal_number v \<and> w = pre @ v @ post" by blast
qed

lemma amount_shape_Seq1: "group_free a \<Longrightarrow> amount_shape b \<Longrightarrow> amount_shape (Seq a b)"
  unfolding amount_shape_def
proof (intro allI impI)
  fix w g assume a: "group_free a"
    and b: "\<forall>w g. matches b w g \<longrightarrow> (\<exists>v pre post. g = [v] \<and> two_decimal_number v \<and> w = pre @ v @ post)"
    and m: "matches (Seq a b) w g"
  from m obtain u v g1 g2 where w: "w = u @ v" "g = g1 @ g2" "matches a u g1" "matches b v g2"
    by (auto elim: matches_SeqE)
  have "g1 = []" using w(3) a by (rule matches_group_free)
  moreover obtain x pre post where "g2 = [x]" "two_decimal_number x" "v = pre @ x @ post"
    using b w(4) by blast
  ultimately have "g = [x] \<and> two_decimal_number x \<and> w = (u @ pre) @ x @ post"
    using w by simp
  then show "\<exists>v pre post. g = [v] \<and> two_decimal_number v \<and> w = pre @ v @ post" by blast
qed

lemma amount_shape_Seq2: "amount_shape a \<Longrightarrow> group_free b \<Longrightarrow> amount_shape (Seq a b)"
  unfolding amount_shape_def
proof (intro allI impI)
  fix w g assume b: "group_free b"
    and a: "\<forall>w g. matches a w g \<longrightarrow> (\<exists>v pre post. g = [v] \<and> two_decimal_number v \<and> w = pre @ v @ post)"
    and m: "matches (Seq a b) w g"
  from m obtain u v g1 g2 where w: "w = u @ v" "g = g1 @ g2" "matches a u g1" "matches b v g2"
    by (auto elim: matches_SeqE)
  have "g2 = []" using w(4) b by (rule matches_group_free)
  moreover obtain x pre post where "g1 = [x]" "two_decimal_number x" "u = pre @ x @ post"
    using a w(3) by blast
  ultimately have "g = [x] \<and> two_decimal_number x \<and> w = pre @ x @ (post @ v)"
    using w by simp
  then show "\<exists>v pre post. g = [v] \<and> two_decimal_number v \<and> w = pre @ v @ post" by blast
qed

lemma group_free_re_str: "group_free (re_str w)"
  by (induction w rule: re_str.induct) (simp_all add: re_lit_def)

lemma amount_shape_re_seq:
  "list_all group_free rs \<Longrightarrow> amount_shape r \<Longrightarrow> amount_shape (re_seq (rs @ [r]))"
proof (induction rs)
  case Nil
  then show ?case by simp
next
  case (Cons a rs)
  then have "amount_shape (Seq a (re_seq (rs @ [r])))"
    by (intro amount_shape_Seq1) simp_all
  moreover have "re_seq ((a # rs) @ [r]) = Seq a (re_seq (rs @ [r]))"
    by (cases rs) simp_all
  ultimately show ?case by simp
qed

lemma amount_patterns_shape: "p \<in> set amount_patterns \<Longrightarrow> amount_shape p"
proof -
  have gf: "\<And>w. group_free (re_str w)" "\<And>c. group_free (Opt (re_lit c))"
    "group_free (Star re_space)" "group_free (re_plus re_space)" "group_free (Opt currency)"
    "group_free currency" "\<And>c. group_free (re_lit c)" "group_free re_space"
    by (simp_all add: group_free_re_str re_lit_def currency_def re_oneof_def re_space_def
          re_plus_def)
  note n = amount_shape_amount_number
  have "amount_shape (Seq currency amount_number)"
    "amount_shape (Seq (re_lit (CHR 0xA3)) amount_number)"
    "amount_shape (Seq amount_number currency)"
    by (intro amount_shape_Seq1 amount_shape_Seq2 gf n)+
  moreover have "amount_shape (re_seq ([re_str ''Total'', Opt (re_lit CHR '':''), Star re_space,
      Opt currency] @ [amount_number]))"
    by (rule amount_shape_re_seq [OF _ n]) (simp add: gf)
  moreover have "amount_shape (re_seq ([re_str ''Amount'', Star re_space, re_str ''due'',
      Opt (re_lit CHR '':''), Star re_space, Opt currency] @ [amount_number]))"
    by (rule amount_shape_re_seq [OF _ n]) (simp add: gf)
  moreover have "amount_shape (re_seq ([re_str ''Total'', re_plus re_space,
      Opt (Alt (re_str ''Electricity'') (re_str ''Gas'')), re_plus re_space,
      re_str ''Charges'', Star re_space, Opt currency] @ [amount_number]))"
    by (rule amount_shape_re_seq [OF _ n]) (simp add: gf)
  moreover have "amount_shape (re_seq ([re_str ''Total'', re_plus re_space, re_str ''charges'',
      re_plus re_space, re_str ''for'', re_plus re_space, re_str ''bill'', Star re_space,
      Opt currency] @ [amount_number]))"
    by (rule amount_shape_re_seq [OF _ n]) (simp add: gf)
  moreover assume "p \<in> set amount_patterns"
  ultimately show ?thesis
    unfolding amount_patterns_def by (auto simp del: re_seq.simps re_str.simps)
qed

lemma first_findall_Some:
  "first_findall ps text = Some v \<Longrightarrow>
     \<exists>p \<in> set ps. \<exists>k. matches_at p text k \<and> v = item_at p text k"
proof (induction ps)
  case Nil
  then show ?case by simp
next
  case (Cons p ps)
  show ?case
  proof (cases "findall p text")
    case Nil
    then show ?thesis using Cons by auto
  next
    case (Cons m ms)
    then have v: "v = m" using Cons.prems by simp
    have "matches_anywhere p text" using Cons findall_Nil_iff [of p "text"] by auto
    then obtain k ms' where "matches_at p text k" "findall p text = item_at p text k # ms'"
      using findall_first by blast
    then show ?thesis using Cons v by auto
  qed
qed

lemma item_at_matches:
  assumes "matches_at p text k"
  shows "\<exists>w g s'. matches p w g \<and> text = take k text @ w @ s' \<and>
           item_at p text k = match_item (w @ s') (g, s')"
proof -
  obtain m ms where m: "rmatch p [] (drop k text) = m # ms"
    using assms by (cases "rmatch p [] (drop k text)") (auto simp: matches_at_def)
  obtain g s' where gs: "m = (g, s')" by (cases m)
  have "(g, s') \<in> set (rmatch p [] (drop k text))" using m gs by simp
  then obtain w where w: "matches p w g" "drop k text = w @ s'"
    using rmatch_sound [of g s' p "[]" "drop k text"] by auto
  have "text = take k text @ w @ s'" using w(2) by (metis append_take_drop_id)
  moreover have "item_at p text k = match_item (w @ s') (g, s')"
    using m gs w(2) by (simp add: item_at_def)
  ultimately show ?thesis using w(1) by blast
qed

text \<open>
  C3 (as the code has it). An amount returned by the extractor is a two-decimal number (one
  or more digits, a dot, two digits) that stands in the text, so an integer amount alone yields
  no amount; the patterns have no boundary behind the second decimal, so a number with three
  decimals is matched and its first two decimals are returned.
\<close>

theorem amount_two_decimals:
  "(extract_amount text = Some v \<longrightarrow>
      two_decimal_number v \<and> (\<exists>pre post. text = pre @ v @ post)) \<and>
   extract_amount (CHR 0xA3 # ''123'') = None \<and>
   extract_amount (CHR 0xA3 # ''123.456'') = Some ''123.45''"
proof -
  have "two_decimal_number v \<and> (\<exists>pre post. text = pre @ v @ post)"
    if "extract_amount text = Some v"
  proof -
    from that obtain p k where p: "p \<in> set amount_patterns" "matches_at p text k"
      "v = item_at p text k"
      unfolding extract_amount_def using first_findall_Some by blast
    from item_at_matches [OF p(2)] obtain w g s' where w: "matches p w g"
      "text = take k text @ w @ s'" "item_at p text k = match_item (w @ s') (g, s')" by blast
    from amount_patterns_shape [OF p(1)] w(1) obtain x pre post where
      x: "g = [x]" "two_decimal_number x" "w = pre @ x @ post"
      unfolding amount_shape_def by blast
    have "v = x" using p(3) w(3) x(1) by (simp add: match_item_def)
    moreover have "text = (take k text @ pre) @ x @ (post @ s')" using w(2) x(3) by simp
    ultimately show ?thesis using x(2) by blast
  qed
  moreover have "extract_amount (CHR 0xA3 # ''123'') = None" by code_simp
  moreover have "extract_amount (CHR 0xA3 # ''123.456'') = Some ''123.45''" by code_simp
  ultimately show ?thesis by blast
qed

theorem amount_two_decimals_witness:
  "extract_amount ''Total: 3.08'' = Some ''3.08'' \<and> two_decimal_number ''3.08'' \<and>
   (\<exists>pre post. ''Total: 3.08'' = pre @ ''3.08'' @ post)"
proof -
  have e: "extract_amount ''Total: 3.08'' = Some ''3.08''" by code_simp
  from amount_two_decimals [of "''Total: 3.08''" "''3.08''"] e show ?thesis by blast
qed

text \<open>
  Against C3 as stated: the text of a pound sign and \<^verbatim>\<open>123.456\<close> does yield an amount, the
  truncated \<^verbatim>\<open>123.45\<close>, although the number in the text has three decimals.
\<close>

theorem amount_three_decimals_counterexample:
  "extract_amount (CHR 0xA3 # ''123.456'') \<noteq> None \<and>
   extract_amount (CHR 0xA3 # ''123.456'') = Some ''123.45''"
  by code_simp

section \<open>The tariff name\<close>

lemma search_Some:
  "search r s = Some m \<Longrightarrow>
     \<exists>k ms. k \<le> length s \<and> rmatch r [] (drop k s) = m # ms \<and>
            (\<forall>j < k. rmatch r [] (drop j s) = [])"
proof (induction s)
  case Nil
  then show ?case by (auto simp: search.simps split: list.splits)
next
  case (Cons x s)
  show ?case
  proof (cases "rmatch r [] (x # s)")
    case Nil
    then have "search r s = Some m" using Cons.prems by (simp add: search.simps)
    then obtain k ms where k: "k \<le> length s" "rmatch r [] (drop k s) = m # ms"
      "\<forall>j < k. rmatch r [] (drop j s) = []" using Cons.IH by blast
    have "\<forall>j < Suc k. rmatch r [] (drop j (x # s)) = []"
    proof (intro allI impI)
      fix j assume "j < Suc k"
      then show "rmatch r [] (drop j (x # s)) = []" using k(3) Nil by (cases j) simp_all
    qed
    then show ?thesis
      using k(1,2) by (intro exI [of _ "Suc k"] exI [of _ ms]) simp
  next
    case (Cons m' ms)
    then have "m' = m" using Cons.prems by (simp add: search.simps)
    then show ?thesis using Cons by (intro exI [of _ 0] exI [of _ ms]) simp
  qed
qed

lemma search_matches:
  assumes "search r s = Some (g, s')"
  shows "\<exists>k w. k \<le> length s \<and> matches r w g \<and> s = take k s @ w @ s'"
proof -
  from search_Some [OF assms] obtain k ms where k: "k \<le> length s"
    "rmatch r [] (drop k s) = (g, s') # ms" by blast
  then have "(g, s') \<in> set (rmatch r [] (drop k s))" by simp
  then obtain w where w: "matches r w g" "drop k s = w @ s'"
    using rmatch_sound [of g s' r "[]" "drop k s"] by auto
  have "s = take k s @ w @ s'" using w(2) by (metis append_take_drop_id)
  then show ?thesis using k(1) w(1) by blast
qed

lemma matches_Seq_Group:
  assumes "matches (Seq (Group a) b) w g" and "group_free a"
  obtains u v h where "w = u @ v" "g = u # h" "matches a u []" "matches b v h"
proof -
  from assms(1) obtain u v g1 h where 1: "w = u @ v" "g = g1 @ h" "matches (Group a) u g1"
    "matches b v h" by (auto elim: matches_SeqE)
  from 1(3) obtain g0 where 2: "g1 = g0 @ [u]" "matches a u g0" by (auto elim: matches_GroupE)
  have "g0 = []" using 2(2) assms(2) by (rule matches_group_free)
  then show thesis using 1 2 that by simp
qed

lemma matches_Seq_free:
  assumes "matches (Seq a b) w g" and "group_free a"
  obtains u v where "w = u @ v" "matches b v g"
proof -
  from assms(1) obtain u v g1 h where 1: "w = u @ v" "g = g1 @ h" "matches a u g1"
    "matches b v h" by (auto elim: matches_SeqE)
  have "g1 = []" using 1(3) assms(2) by (rule matches_group_free)
  then show thesis using 1 that by simp
qed

lemma matches_re_str: "matches (re_str n) u g \<Longrightarrow> lower u = lower n"
proof (induction n arbitrary: u g rule: re_str.induct)
  case 1
  then show ?case by (auto elim: matches_EpsE)
next
  case (2 c)
  then show ?case by (auto simp: re_lit_def lower_def elim: matches_AtomE)
next
  case (3 c v va)
  from 3(2) obtain x u' g1 g2 where "u = x @ u'" "matches (re_lit c) x g1"
    "matches (re_str (v # va)) u' g2" by (auto elim: matches_SeqE)
  then show ?case using 3(1) by (auto simp: re_lit_def lower_def elim: matches_AtomE)
qed

lemma group_free_date_pattern_part: "group_free date_pattern_part"
  by (simp add: date_pattern_part_def re_between_def re_digit_def ordinal_def month_def
        re_plus_def re_space_def re_letter_def group_free_re_str numeral_eq_Suc
      del: re_str.simps)

lemma tariff_pattern_groups:
  assumes "matches (tariff_pattern n) w g"
  shows "\<exists>g1 g2 g3 v. g = [g1, g2, g3] \<and> lower g1 = lower n \<and> w = g1 @ v"
proof -
  note gf = group_free_re_str group_free_date_pattern_part
  have s: "group_free (Star re_space)" "\<And>c. group_free (re_lit c)"
    by (simp_all add: re_space_def re_lit_def)
  from assms obtain u1 v1 h1 where 1: "g = u1 # h1" "matches (re_str n) u1 []" "w = u1 @ v1"
    "matches (re_seq [Star re_space, re_lit CHR ''('', Star re_space,
             Group date_pattern_part, Star re_space, re_lit CHR ''-'', Star re_space,
             Group date_pattern_part, Star re_space, re_lit CHR '')'']) v1 h1"
    unfolding tariff_pattern_def by (auto elim: matches_Seq_Group [OF _ gf(1)])
  from 1(4) obtain v2 where 2: "matches (re_seq [re_lit CHR ''('', Star re_space,
             Group date_pattern_part, Star re_space, re_lit CHR ''-'', Star re_space,
             Group date_pattern_part, Star re_space, re_lit CHR '')'']) v2 h1"
    by (auto elim: matches_Seq_free [OF _ s(1)])
  from 2 obtain v3 where 3: "matches (re_seq [Star re_space,
             Group date_pattern_part, Star re_space, re_lit CHR ''-'', Star re_space,
             Group date_pattern_part, Star re_space, re_lit CHR '')'']) v3 h1"
    by (auto elim: matches_Seq_free [OF _ s(2)])
  from 3 obtain v4 where 4: "matches (re_seq [
             Group date_pattern_part, Star re_space, re_lit CHR ''-'', Star re_space,
             Group date_pattern_part, Star re_space, re_lit CHR '')'']) v4 h1"
    by (auto elim: matches_Seq_free [OF _ s(1)])
  from 4 obtain u5 v5 h5 where 5: "h1 = u5 # h5"
    "matches (re_seq [Star re_space, re_lit CHR ''-'', Star re_space,
             Group date_pattern_part, Star re_space, re_lit CHR '')'']) v5 h5"
    by (auto elim: matches_Seq_Group [OF _ gf(2)])
  from 5(2) obtain v6 where 6: "matches (re_seq [re_lit CHR ''-'', Star re_space,
             Group date_pattern_part, Star re_space, re_lit CHR '')'']) v6 h5"
    by (auto elim: matches_Seq_free [OF _ s(1)])
  from 6 obtain v7 where 7: "matches (re_seq [Star re_space,
             Group date_pattern_part, Star re_space, re_lit CHR '')'']) v7 h5"
    by (auto elim: matches_Seq_free [OF _ s(2)])
  from 7 obtain v8 where 8: "matches (re_seq [
             Group date_pattern_part, Star re_space, re_lit CHR '')'']) v8 h5"
    by (auto elim: matches_Seq_free [OF _ s(1)])
  from 8 obtain u9 v9 h9 where 9: "h5 = u9 # h9"
    "matches (re_seq [Star re_space, re_lit CHR '')'']) v9 h9"
    by (auto elim: matches_Seq_Group [OF _ gf(2)])
  have "group_free (re_seq [Star re_space, re_lit CHR '')''])"
    by (simp add: re_space_def re_lit_def)
  with 9(2) have "h9 = []" by (rule matches_group_free)
  then show ?thesis using 1(1,2,3) 5(1) 9(1) matches_re_str by blast
qed

lemma strip_same_letters:
  assumes "lower u = lower n" and "n \<noteq> []" and "\<not> is_space (hd n)" and "\<not> is_space (last n)"
  shows "strip u = u"
proof -
  have ne: "u \<noteq> []" using assms(1,2) by (auto simp: lower_def)
  have "lower_ch (hd u) = lower_ch (hd n)"
    using assms(1,2) ne by (metis hd_map lower_def)
  then have h: "\<not> is_space (hd u)"
    using assms(3) is_space_lower_ch by metis
  have "lower_ch (last u) = lower_ch (last n)"
    using assms(1,2) ne by (metis last_map lower_def)
  then have l: "\<not> is_space (last u)"
    using assms(4) is_space_lower_ch by metis
  have 1: "dropWhile is_space u = u" using ne h by (cases u) simp_all
  have dw: "\<And>xs. xs \<noteq> [] \<Longrightarrow> \<not> is_space (hd xs) \<Longrightarrow> dropWhile is_space xs = xs"
  proof -
    fix xs :: string assume "xs \<noteq> []" "\<not> is_space (hd xs)"
    then show "dropWhile is_space xs = xs" by (cases xs) simp_all
  qed
  have "rev u \<noteq> []" "\<not> is_space (hd (rev u))" using ne l by (simp_all add: hd_rev)
  then have 2: "dropWhile is_space (rev u) = rev u" by (rule dw)
  show ?thesis by (simp add: strip_def 1 2)
qed

lemma tariff_loop_Some:
  "tariff_loop ns text = (Some t, sd, ed) \<Longrightarrow>
     \<exists>n \<in> set ns. \<exists>g1 g2 g3 rest.
        search (tariff_pattern n) text = Some ([g1, g2, g3], rest) \<and> t = strip g1"
proof (induction ns)
  case Nil
  then show ?case by simp
next
  case (Cons n ns)
  show ?case
  proof (cases "search (tariff_pattern n) text")
    case None
    then show ?thesis using Cons by simp
  next
    case (Some m)
    then show ?thesis
      using Cons.prems by (auto split: prod.splits list.splits)
  qed
qed

text \<open>
  C10. The tariff returned is spelled as in the text: it is a substring of the text that equals
  a known tariff name up to letter case, not the name of the vocabulary; for the text
  \<^verbatim>\<open>cosy octopus (12th May 2025 - 24th May 2025)\<close> it is \<^verbatim>\<open>cosy octopus\<close>.
\<close>

theorem tariff_as_spelled:
  "(extract_tariff_and_billing_period text = (Some t, sd, ed) \<longrightarrow>
      (\<exists>n \<in> set tariff_names. lower t = lower n) \<and> (\<exists>pre post. text = pre @ t @ post)) \<and>
   extract_tariff_and_billing_period ''cosy octopus (12th May 2025 - 24th May 2025)'' =
     (Some ''cosy octopus'', Some ''12th May 2025'', Some ''24th May 2025'')"
proof -
  have "(\<exists>n \<in> set tariff_names. lower t = lower n) \<and> (\<exists>pre post. text = pre @ t @ post)"
    if "extract_tariff_and_billing_period text = (Some t, sd, ed)"
  proof -
    from that obtain n g1 g2 g3 rest where n: "n \<in> set tariff_names"
      "search (tariff_pattern n) text = Some ([g1, g2, g3], rest)" "t = strip g1"
      unfolding extract_tariff_and_billing_period_def using tariff_loop_Some by blast
    from search_matches [OF n(2)] obtain k w where w: "matches (tariff_pattern n) w [g1, g2, g3]"
      "text = take k text @ w @ rest" by blast
    from tariff_pattern_groups [OF w(1)] obtain v where v: "lower g1 = lower n" "w = g1 @ v"
      by auto
    have "n \<noteq> [] \<and> \<not> is_space (hd n) \<and> \<not> is_space (last n)"
      using n(1) by (auto simp: tariff_names_def is_space_def)
    then have "strip g1 = g1" using v(1) strip_same_letters by blast
    then have t: "t = g1" using n(3) by simp
    have "text = take k text @ t @ (v @ rest)" using w(2) v(2) t by simp
    then show ?thesis using n(1) v(1) t by blast
  qed
  moreover have "extract_tariff_and_billing_period ''cosy octopus (12th May 2025 - 24th May 2025)'' =
     (Some ''cosy octopus'', Some ''12th May 2025'', Some ''24th May 2025'')"
    by code_simp
  ultimately show ?thesis by blast
qed

theorem tariff_as_spelled_witness:
  "extract_tariff_and_billing_period
     ''Tariff: cosy octopus (12th May 2025 - 24th May 2025) Gas'' =
     (Some ''cosy octopus'', Some ''12th May 2025'', Some ''24th May 2025'') \<and>
   (\<exists>n \<in> set tariff_names. lower ''cosy octopus'' = lower n) \<and>
   ''cosy octopus'' \<notin> set tariff_names"
proof -
  have e: "extract_tariff_and_billing_period
     ''Tariff: cosy octopus (12th May 2025 - 24th May 2025) Gas'' =
     (Some ''cosy octopus'', Some ''12th May 2025'', Some ''24th May 2025'')"
    by code_simp
  have n: "''cosy octopus'' \<notin> set tariff_names" by (simp add: tariff_names_def)
  from tariff_as_spelled [of "''Tariff: cosy octopus (12th May 2025 - 24th May 2025) Gas''"
      "''cosy octopus''" "Some ''12th May 2025''" "Some ''24th May 2025''"] e n
  show ?thesis by blast
qed

section \<open>The address\<close>

lemma search_first_suffix: "map_option fst (search r s) = first_suffix (first_caps r) s"
  by (induction s) (simp_all add: search.simps first_caps_def split: list.splits)

lemma first_suffix_map_option:
  "first_suffix (\<lambda>t. map_option F (f t)) s = map_option F (first_suffix f s)"
  by (induction s) (simp_all split: option.splits)

lemma rmatch_Star_Atom_tail:
  "\<exists>ms. rmatch (Star (Atom P)) cs s = (cs, dropWhile P s) # ms \<and>
        (\<forall>m \<in> set ms. snd m \<noteq> [] \<and> P (hd (snd m)))"
proof (induction s)
  case Nil
  show ?case by simp
next
  case (Cons c s)
  then obtain ms where ms: "rmatch (Star (Atom P)) cs s = (cs, dropWhile P s) # ms"
    "\<forall>m \<in> set ms. snd m \<noteq> [] \<and> P (hd (snd m))" by blast
  show ?case
  proof (cases "P c")
    case True
    then have "rmatch (Star (Atom P)) cs (c # s) = (cs, dropWhile P (c # s)) # (ms @ [(cs, c # s)])"
      using ms(1) by (simp add: rmatch_Star_Atom_Cons del: rmatch.simps)
    moreover have "\<forall>m \<in> set (ms @ [(cs, c # s)]). snd m \<noteq> [] \<and> P (hd (snd m))"
      using ms(2) True by simp
    ultimately show ?thesis by blast
  next
    case False
    then show ?thesis by (simp add: rmatch_Star_Atom_Cons del: rmatch.simps)
  qed
qed

lemma rmatch_Seq_hd:
  "rmatch a cs s = (cs1, s1) # rest \<Longrightarrow> rmatch b cs1 s1 = m # ms \<Longrightarrow>
     \<exists>ms'. rmatch (Seq a b) cs s = m # ms'"
  by simp

lemma rmatch_Seq_only_hd:
  "rmatch a cs s = (cs1, s1) # rest \<Longrightarrow> \<forall>m \<in> set rest. rmatch b (fst m) (snd m) = [] \<Longrightarrow>
     rmatch (Seq a b) cs s = rmatch b cs1 s1"
proof -
  assume a: "rmatch a cs s = (cs1, s1) # rest"
    and r: "\<forall>m \<in> set rest. rmatch b (fst m) (snd m) = []"
  have "concat (map (\<lambda>(cs', s'). rmatch b cs' s') rest) = []"
    using r by (induction rest) auto
  then show ?thesis using a by simp
qed

lemma rmatch_LazyStar_any_Cons:
  "rmatch (LazyStar re_any) cs (x # s) = (cs, x # s) # rmatch (LazyStar re_any) cs s"
  by (simp add: re_any_def)

text \<open>The alternatives of the lazy group, with the text \<open>p\<close> it has already taken.\<close>

lemma lazy_group_results:
  "\<exists>rest ms.
     concat (map (\<lambda>(cs', s'). rmatch (Alt (re_str ''Postcode'') Eos) cs' s')
        (map (\<lambda>(cs', s'). (cs' @ [take (length (p @ s) - length s') (p @ s)], s'))
           (rmatch (LazyStar re_any) cs s)))
     = (cs @ [p @ code_capture s], rest) # ms"
proof (induction s arbitrary: p)
  case Nil
  show ?case by (simp add: re_any_def rmatch_re_str del: re_str.simps)
next
  case (Cons x s)
  have step: "map (\<lambda>(cs', s'). (cs' @ [take (length (p @ x # s) - length s') (p @ x # s)], s'))
           (rmatch (LazyStar re_any) cs (x # s)) =
        (cs @ [p], x # s) #
        map (\<lambda>(cs', s'). (cs' @ [take (length ((p @ [x]) @ s) - length s') ((p @ [x]) @ s)], s'))
           (rmatch (LazyStar re_any) cs s)"
    by (simp add: rmatch_LazyStar_any_Cons del: rmatch.simps)
  from Cons [of "p @ [x]"] obtain rest ms where ih:
    "concat (map (\<lambda>(cs', s'). rmatch (Alt (re_str ''Postcode'') Eos) cs' s')
        (map (\<lambda>(cs', s'). (cs' @ [take (length ((p @ [x]) @ s) - length s') ((p @ [x]) @ s)], s'))
           (rmatch (LazyStar re_any) cs s)))
     = (cs @ [(p @ [x]) @ code_capture s], rest) # ms" by blast
  have alt: "rmatch (Alt (re_str ''Postcode'') Eos) (cs @ [p]) (x # s) =
      (if starts_with_ci ''Postcode'' (x # s) then [(cs @ [p], drop (length ''Postcode'') (x # s))] else []) @
      (if x # s = [CHR 0x0A] then [(cs @ [p], x # s)] else [])"
    by (simp add: rmatch_re_str del: re_str.simps starts_with_ci.simps)
  show ?case
    unfolding step using ih alt
    by (auto simp del: rmatch.simps re_str.simps starts_with_ci.simps)
qed

lemma rmatch_capture_tail:
  "\<exists>rest ms. rmatch (Seq (Group (LazyStar re_any)) (Alt (re_str ''Postcode'') Eos)) cs s =
     (cs @ [code_capture s], rest) # ms"
proof -
  have "rmatch (Seq (Group (LazyStar re_any)) (Alt (re_str ''Postcode'') Eos)) cs s =
     concat (map (\<lambda>(cs', s'). rmatch (Alt (re_str ''Postcode'') Eos) cs' s')
        (map (\<lambda>(cs', s'). (cs' @ [take (length ([] @ s) - length s') ([] @ s)], s'))
           (rmatch (LazyStar re_any) cs s)))"
    by (simp only: rmatch.simps(4) rmatch.simps(9) append_Nil)
  then show ?thesis using lazy_group_results [of "[]" s cs] by (simp only: append_Nil)
qed

lemma lower_ch_nonletter:
  "(of_char c :: nat) < 65 \<Longrightarrow> (lower_ch x = lower_ch c) = (x = c)"
proof -
  assume c: "(of_char c :: nat) < 65"
  then have lc: "lower_ch c = c" by (simp add: lower_ch_def Let_def)
  have "x = c" if "lower_ch x = c"
  proof -
    have "(of_char (lower_ch x) :: nat) < 65" using that c by simp
    then have "(of_char (lower_ch x) :: nat) = of_char x"
      by (simp add: of_char_lower_ch Let_def split: if_splits)
    then have "lower_ch x = x" by (metis char_of_char)
    then show ?thesis using that by simp
  qed
  then show ?thesis using lc by metis
qed

lemma rmatch_Opt_colon:
  "\<exists>ms. rmatch (Opt (re_lit CHR '':'')) cs r = (cs, skip_colon r) # ms"
proof -
  have "(of_char CHR '':'' :: nat) < 65" by simp
  then have c: "\<And>x. (lower_ch x = lower_ch CHR '':'') = (x = CHR '':'')"
    by (rule lower_ch_nonletter)
  show ?thesis
    by (cases r) (simp_all add: re_lit_def skip_colon_def c [unfolded re_lit_def])
qed

lemma rmatch_address_tail:
  "\<exists>rest ms. rmatch address_tail cs r =
     (cs @ [code_capture (dropWhile is_space (skip_colon r))], rest) # ms"
proof -
  obtain ms1 where 1: "rmatch (Opt (re_lit CHR '':'')) cs r = (cs, skip_colon r) # ms1"
    using rmatch_Opt_colon by blast
  obtain ms2 where 2: "rmatch (Star re_space) cs (skip_colon r) =
      (cs, dropWhile is_space (skip_colon r)) # ms2"
    unfolding re_space_def using rmatch_Star_Atom_hd by blast
  obtain rest ms3 where 3:
    "rmatch (Seq (Group (LazyStar re_any)) (Alt (re_str ''Postcode'') Eos)) cs
       (dropWhile is_space (skip_colon r)) =
     (cs @ [code_capture (dropWhile is_space (skip_colon r))], rest) # ms3"
    using rmatch_capture_tail by blast
  from rmatch_Seq_hd [OF 2 3] obtain ms4 where 4:
    "rmatch (Seq (Star re_space) (Seq (Group (LazyStar re_any)) (Alt (re_str ''Postcode'') Eos)))
       cs (skip_colon r) =
     (cs @ [code_capture (dropWhile is_space (skip_colon r))], rest) # ms4" by blast
  from rmatch_Seq_hd [OF 1 4] obtain ms5 where
    "rmatch (Seq (Opt (re_lit CHR '':'')) (Seq (Star re_space)
        (Seq (Group (LazyStar re_any)) (Alt (re_str ''Postcode'') Eos)))) cs r =
     (cs @ [code_capture (dropWhile is_space (skip_colon r))], rest) # ms5" by blast
  then show ?thesis by (simp add: address_tail_def del: rmatch.simps re_str.simps)
qed

lemma rmatch_Address_tail:
  "rmatch (Seq (re_str ''Address'') address_tail) cs t =
     (if starts_with_ci ''Address'' t then rmatch address_tail cs (drop (length ''Address'') t)
      else [])"
proof -
  have "rmatch (Seq (re_str ''Address'') address_tail) cs t =
      concat (map (\<lambda>(cs', s'). rmatch address_tail cs' s') (rmatch (re_str ''Address'') cs t))"
    by (simp only: rmatch.simps(4))
  then show ?thesis by (simp add: rmatch_re_str del: rmatch.simps re_str.simps starts_with_ci.simps)
qed

lemma first_caps_Address:
  "first_caps (Seq (re_str ''Address'') address_tail) t =
     map_option (\<lambda>r. [code_capture (dropWhile is_space (skip_colon r))]) (address_label_rest t)"
proof (cases "starts_with_ci ''Address'' t")
  case True
  obtain rest ms where "rmatch address_tail [] (drop (length ''Address'') t) =
     ([] @ [code_capture (dropWhile is_space (skip_colon (drop (length ''Address'') t)))], rest) # ms"
    using rmatch_address_tail by blast
  then show ?thesis
    using True unfolding first_caps_def rmatch_Address_tail address_label_rest_def
    by (simp del: rmatch.simps re_str.simps starts_with_ci.simps)
next
  case False
  then show ?thesis
    unfolding first_caps_def rmatch_Address_tail address_label_rest_def
    by (simp del: rmatch.simps re_str.simps starts_with_ci.simps)
qed

lemma space_not_Address: "is_space x \<Longrightarrow> \<not> starts_with_ci ''Address'' (x # s)"
proof
  assume sp: "is_space x" and st: "starts_with_ci ''Address'' (x # s)"
  have "lower_ch x = x" using sp by (auto simp: is_space_def lower_ch_def Let_def)
  moreover have "lower_ch CHR ''A'' = CHR ''a''" by code_simp
  moreover have "lower_ch x = lower_ch CHR ''A''" using st by simp
  ultimately have "x = CHR ''a''" by simp
  moreover have "\<not> is_space CHR ''a''" by (simp add: is_space_def)
  ultimately show False using sp by simp
qed

lemma rmatch_plus_space_Address:
  "rmatch (Seq (re_plus re_space) (Seq (re_str ''Address'') address_tail)) cs r =
     (if r \<noteq> [] \<and> is_space (hd r)
      then rmatch (Seq (re_str ''Address'') address_tail) cs (dropWhile is_space r) else [])"
proof (cases r)
  case Nil
  have "rmatch (re_plus re_space) cs [] = []" by (simp add: re_space_def rmatch_plus_Atom del: rmatch.simps)
  then have "rmatch (Seq (re_plus re_space) (Seq (re_str ''Address'') address_tail)) cs [] = []"
    by (simp only: rmatch.simps(4)) simp
  then show ?thesis using Nil by simp
next
  case (Cons c r')
  show ?thesis
  proof (cases "is_space c")
    case False
    have "rmatch (re_plus re_space) cs (c # r') = []"
      using False by (simp add: re_space_def rmatch_plus_Atom del: rmatch.simps)
    then have "rmatch (Seq (re_plus re_space) (Seq (re_str ''Address'') address_tail)) cs (c # r') = []"
      by (simp only: rmatch.simps(4)) simp
    then show ?thesis using Cons False by simp
  next
    case True
    obtain ms where ms: "rmatch (Star (Atom is_space)) cs r' = (cs, dropWhile is_space r') # ms"
      "\<forall>m \<in> set ms. snd m \<noteq> [] \<and> is_space (hd (snd m))"
      using rmatch_Star_Atom_tail by blast
    have p: "rmatch (re_plus re_space) cs (c # r') = (cs, dropWhile is_space r') # ms"
      using True ms(1) by (simp add: re_space_def rmatch_plus_Atom del: rmatch.simps)
    have "\<forall>m \<in> set ms. rmatch (Seq (re_str ''Address'') address_tail) (fst m) (snd m) = []"
    proof
      fix m assume "m \<in> set ms"
      then obtain x s where "snd m = x # s" "is_space x"
        using ms(2) by (cases "snd m") auto
      then have "\<not> starts_with_ci ''Address'' (snd m)"
        using space_not_Address by simp
      then show "rmatch (Seq (re_str ''Address'') address_tail) (fst m) (snd m) = []"
        by (simp only: rmatch_Address_tail if_False)
    qed
    from rmatch_Seq_only_hd [OF p this] show ?thesis using Cons True by simp
  qed
qed

lemma rmatch_Supply_Address:
  "rmatch (re_seq [re_str ''Supply'', re_plus re_space, re_str ''Address'', address_tail]) cs t =
     (let r = drop (length ''Supply'') t
      in if starts_with_ci ''Supply'' t \<and> r \<noteq> [] \<and> is_space (hd r)
         then rmatch (Seq (re_str ''Address'') address_tail) cs (dropWhile is_space r) else [])"
proof -
  have "re_seq [re_str ''Supply'', re_plus re_space, re_str ''Address'', address_tail] =
      Seq (re_str ''Supply'') (Seq (re_plus re_space) (Seq (re_str ''Address'') address_tail))"
    by (simp only: re_seq.simps)
  moreover have "rmatch (Seq (re_str ''Supply'')
        (Seq (re_plus re_space) (Seq (re_str ''Address'') address_tail))) cs t =
      concat (map (\<lambda>(cs', s'). rmatch (Seq (re_plus re_space)
                 (Seq (re_str ''Address'') address_tail)) cs' s') (rmatch (re_str ''Supply'') cs t))"
    by (rule rmatch.simps(4))
  ultimately have "rmatch (re_seq [re_str ''Supply'', re_plus re_space, re_str ''Address'', address_tail]) cs t =
      concat (map (\<lambda>(cs', s'). rmatch (Seq (re_plus re_space)
                 (Seq (re_str ''Address'') address_tail)) cs' s') (rmatch (re_str ''Supply'') cs t))"
    by (simp only:)
  then have "rmatch (re_seq [re_str ''Supply'', re_plus re_space, re_str ''Address'', address_tail]) cs t =
      concat (map (\<lambda>(cs', s'). rmatch (Seq (re_plus re_space)
                 (Seq (re_str ''Address'') address_tail)) cs' s')
               (if starts_with_ci ''Supply'' t then [(cs, drop (length ''Supply'') t)] else []))"
    by (simp only: rmatch_re_str)
  then show ?thesis
    by (cases "starts_with_ci ''Supply'' t")
       (simp_all only: if_True if_False list.map concat.simps append_Nil2 case_prod_conv
          rmatch_plus_space_Address Let_def simp_thms)
qed

lemma first_caps_Supply_Address:
  "first_caps (re_seq [re_str ''Supply'', re_plus re_space, re_str ''Address'', address_tail]) t =
     map_option (\<lambda>r. [code_capture (dropWhile is_space (skip_colon r))]) (supply_label_rest t)"
  using first_caps_Address [of "dropWhile is_space (drop (length ''Supply'') t)"]
  unfolding first_caps_def rmatch_Supply_Address supply_label_rest_def Let_def
  by (simp del: rmatch.simps re_str.simps starts_with_ci.simps)

lemma re_sub_collapse: "re_sub (re_plus re_space) '' '' s = collapse_whitespace s"
proof (induction s rule: length_induct)
  case (1 s)
  show ?case
  proof (cases s)
    case Nil
    then show ?thesis by (simp add: re_space_def re_sub_plus_Atom_Nil)
  next
    case (Cons c t)
    have "length (dropWhile is_space t) < length s" "length t < length s"
      using length_dropWhile_le [of is_space t] Cons by simp_all
    then have "re_sub (re_plus re_space) '' '' (dropWhile is_space t) =
               collapse_whitespace (dropWhile is_space t)"
      "re_sub (re_plus re_space) '' '' t = collapse_whitespace t"
      using 1 by blast+
    then show ?thesis
      using Cons by (simp add: re_sub_plus_Atom_Cons [of is_space, folded re_space_def])
  qed
qed

lemma code_capture_lazy:
  "code_capture s = lazy_capture s \<or> lazy_capture s = code_capture s @ [CHR 0x0A]"
proof (induction s)
  case Nil
  show ?case by simp
next
  case (Cons x s)
  show ?case
  proof (cases "starts_with_ci ''Postcode'' (x # s)")
    case True
    then show ?thesis by (simp del: starts_with_ci.simps)
  next
    case False
    show ?thesis
    proof (cases "x # s = [CHR 0x0A]")
      case True
      then show ?thesis by simp
    next
      case nl: False
      then show ?thesis using False Cons by (auto simp del: starts_with_ci.simps)
    qed
  qed
qed

lemma dropWhile_all: "\<forall>x \<in> set xs. P x \<Longrightarrow> dropWhile P xs = []"
  by (induction xs) auto

lemma strip_snoc_space:
  assumes "is_space w"
  shows "strip (c @ [w]) = strip c"
proof (cases "\<forall>x \<in> set c. is_space x")
  case True
  have 1: "dropWhile is_space c = []" using True by (rule dropWhile_all)
  have "\<forall>x \<in> set (c @ [w]). is_space x" using True assms by auto
  then have 2: "dropWhile is_space (c @ [w]) = []" by (rule dropWhile_all)
  show ?thesis by (simp only: strip_def 1 2)
next
  case False
  from False obtain x where "x \<in> set c" "\<not> is_space x" by blast
  then have "dropWhile is_space (c @ [w]) = dropWhile is_space c @ [w]"
    by (rule dropWhile_append1)
  then show ?thesis using assms by (simp add: strip_def)
qed

lemma strip_code_capture: "strip (code_capture s) = strip (lazy_capture s)"
proof -
  have "is_space CHR 0x0A" by (simp add: is_space_def)
  then show ?thesis
    using code_capture_lazy [of s] strip_snoc_space [of "CHR 0x0A" "code_capture s"] by auto
qed

lemma address_step:
  assumes "map_option fst (search p text) =
           map_option (\<lambda>r. [code_capture (dropWhile is_space (skip_colon r))]) lr"
  shows "(case search p text of
            Some (g # _, _) \<Rightarrow> Some (re_sub (re_plus re_space) '' '' (strip g))
          | Some ([], _) \<Rightarrow> None
          | None \<Rightarrow> X) =
         (case lr of
            Some r \<Rightarrow> Some (collapse_whitespace (strip (lazy_capture (dropWhile is_space (skip_colon r)))))
          | None \<Rightarrow> X)"
proof (cases lr)
  case None
  then have "search p text = None" using assms by simp
  then show ?thesis using None by simp
next
  case (Some r)
  then obtain rest where "search p text =
      Some ([code_capture (dropWhile is_space (skip_colon r))], rest)"
    using assms by (cases "search p text") auto
  then show ?thesis
    using Some by (simp add: re_sub_collapse strip_code_capture)
qed

lemma search_address_patterns:
  "map_option fst (search (re_seq [re_str ''Supply'', re_plus re_space, re_str ''Address'',
        address_tail]) text) =
     map_option (\<lambda>r. [code_capture (dropWhile is_space (skip_colon r))])
       (first_suffix supply_label_rest text)"
  "map_option fst (search (Seq (re_str ''Address'') address_tail) text) =
     map_option (\<lambda>r. [code_capture (dropWhile is_space (skip_colon r))])
       (first_suffix address_label_rest text)"
proof -
  have 1: "first_caps (re_seq [re_str ''Supply'', re_plus re_space, re_str ''Address'',
        address_tail]) =
      (\<lambda>t. map_option (\<lambda>r. [code_capture (dropWhile is_space (skip_colon r))])
             (supply_label_rest t))"
    by (rule ext) (rule first_caps_Supply_Address)
  have 2: "first_caps (Seq (re_str ''Address'') address_tail) =
      (\<lambda>t. map_option (\<lambda>r. [code_capture (dropWhile is_space (skip_colon r))])
             (address_label_rest t))"
    by (rule ext) (rule first_caps_Address)
  show "map_option fst (search (re_seq [re_str ''Supply'', re_plus re_space, re_str ''Address'',
        address_tail]) text) =
     map_option (\<lambda>r. [code_capture (dropWhile is_space (skip_colon r))])
       (first_suffix supply_label_rest text)"
    by (simp only: search_first_suffix 1 first_suffix_map_option)
  show "map_option fst (search (Seq (re_str ''Address'') address_tail) text) =
     map_option (\<lambda>r. [code_capture (dropWhile is_space (skip_colon r))])
       (first_suffix address_label_rest text)"
    by (simp only: search_first_suffix 2 first_suffix_map_option)
qed

lemma first_suffix_address_label:
  "(first_suffix address_label_rest s \<noteq> None) = contains_ci ''Address'' s"
  by (induction s) (auto simp: address_label_rest_def simp del: starts_with_ci.simps split: option.splits)

text \<open>
  C8 (as the code has it). The address is taken behind the leftmost "Supply Address" label
  or, when the text has none, behind the leftmost "Address" label (in any letter case, the
  colon optional): the capture is lazy, it runs over the lines up to the first "Postcode" in
  any letter case or else to the end of the text, and it is returned trimmed with every run of
  whitespace as one space. A text that contains the word "Address" always yields an address.
\<close>

theorem address_lazy_capture:
  "extract_address text = address_by lazy_capture text \<and>
   (contains_ci ''Address'' text \<longrightarrow> extract_address text \<noteq> None)"
proof -
  have "extract_address text =
     (case search (re_seq [re_str ''Supply'', re_plus re_space, re_str ''Address'',
                           address_tail]) text of
        Some (g # _, _) \<Rightarrow> Some (re_sub (re_plus re_space) '' '' (strip g))
      | Some ([], _) \<Rightarrow> None
      | None \<Rightarrow>
         (case search (Seq (re_str ''Address'') address_tail) text of
            Some (g # _, _) \<Rightarrow> Some (re_sub (re_plus re_space) '' '' (strip g))
          | Some ([], _) \<Rightarrow> None
          | None \<Rightarrow> None))"
    by (simp add: extract_address_def address_patterns_def
          del: re_seq.simps re_str.simps split: option.splits list.splits prod.splits)
  also have "\<dots> = address_by lazy_capture text"
    unfolding address_step [OF search_address_patterns(2)]
      address_step [OF search_address_patterns(1)] address_by_def Let_def
    by (simp split: option.splits)
  finally have eq: "extract_address text = address_by lazy_capture text" .
  have "address_by lazy_capture text \<noteq> None" if "contains_ci ''Address'' text"
  proof -
    from that obtain r where "first_suffix address_label_rest text = Some r"
      using first_suffix_address_label [of "text"] by auto
    then show ?thesis by (simp add: address_by_def Let_def split: option.splits)
  qed
  then show ?thesis using eq by simp
qed

theorem address_lazy_capture_witness:
  "contains_ci ''Address'' address_example \<and>
   extract_address address_example = Some ''1 High St Town'' \<and>
   address_by lazy_capture address_example = Some ''1 High St Town''"
proof -
  have c: "contains_ci ''Address'' address_example" by code_simp
  have e: "extract_address address_example = Some ''1 High St Town''" by code_simp
  from address_lazy_capture [of address_example] c e show ?thesis by simp
qed

text \<open>
  Against C8 as stated: behind the label of \<^verbatim>\<open>Address: A Postcode B Postcode C\<close> a greedy capture
  up to the token "Postcode" runs to the last "Postcode" and gives \<^verbatim>\<open>A Postcode B\<close>; the
  extractor stops at the first and returns \<^verbatim>\<open>A\<close>.
\<close>

theorem address_greedy_counterexample:
  "extract_address ''Address: A Postcode B Postcode C'' = Some ''A'' \<and>
   address_by greedy_capture ''Address: A Postcode B Postcode C'' = Some ''A Postcode B''"
  by code_simp

lemma matches_address_tail:
  assumes "matches address_tail w g"
  shows "\<exists>c. g = [c]"
proof -
  have gf: "group_free (Opt (re_lit CHR '':''))" "group_free (Star re_space)"
    "group_free (LazyStar re_any)" "group_free (Alt (re_str ''Postcode'') Eos)"
    by (simp_all add: re_lit_def re_space_def re_any_def group_free_re_str del: re_str.simps)
  from assms obtain v1 where 1: "matches (re_seq [Star re_space, Group (LazyStar re_any),
      Alt (re_str ''Postcode'') Eos]) v1 g"
    unfolding address_tail_def
    by (auto simp del: re_str.simps elim: matches_Seq_free [OF _ gf(1)])
  from 1 obtain v2 where 2: "matches (re_seq [Group (LazyStar re_any),
      Alt (re_str ''Postcode'') Eos]) v2 g"
    by (auto simp del: re_str.simps elim: matches_Seq_free [OF _ gf(2)])
  from 2 obtain u h v3 where 3: "g = u # h" "matches (Alt (re_str ''Postcode'') Eos) v3 h"
    by (auto simp del: re_str.simps elim: matches_Seq_Group [OF _ gf(3)])
  have "h = []" using 3(2) gf(4) by (rule matches_group_free)
  then show ?thesis using 3(1) by simp
qed

lemma address_pattern_groups:
  assumes "p \<in> set address_patterns" and "matches p w g"
  shows "\<exists>c. g = [c]"
proof -
  have gf: "\<And>n. group_free (re_str n)" "group_free (re_plus re_space)"
    by (simp_all add: group_free_re_str re_plus_def re_space_def)
  consider "p = re_seq [re_str ''Supply'', re_plus re_space, re_str ''Address'', address_tail]"
    | "p = Seq (re_str ''Address'') address_tail"
    using assms(1) by (auto simp: address_patterns_def simp del: re_seq.simps re_str.simps)
  then show ?thesis
  proof cases
    case 1
    with assms(2) obtain v1 where "matches (re_seq [re_plus re_space, re_str ''Address'',
        address_tail]) v1 g"
      by (auto simp del: re_str.simps elim: matches_Seq_free [OF _ gf(1)])
    then obtain v2 where "matches (re_seq [re_str ''Address'', address_tail]) v2 g"
      by (auto simp del: re_str.simps elim: matches_Seq_free [OF _ gf(2)])
    then obtain v3 where "matches address_tail v3 g"
      by (auto simp del: re_str.simps elim: matches_Seq_free [OF _ gf(1)])
    then show ?thesis by (rule matches_address_tail)
  next
    case 2
    with assms(2) obtain v3 where "matches address_tail v3 g"
      by (auto simp del: re_str.simps elim: matches_Seq_free [OF _ gf(1)])
    then show ?thesis by (rule matches_address_tail)
  qed
qed

end
